theory Spec2Isabelle
  imports Complex_Main "HOL-Library.Multiset"
begin

section \<open>The order book of \<open>src/main.cpp\<close>\<close>

text \<open>
  The exchange simulator of \<open>src/main.cpp\<close> (class \<open>ExchangeSimulator\<close>, lines 30 to 95)
  keeps two vectors of orders and a counter. \<open>placeOrder\<close> appends the new order to its
  side, sorts that side with \<open>std::sort\<close> and runs \<open>matchOrders\<close>, a loop over the fronts
  of the two vectors that prints one line per trade.

  Modelling decisions:
  \<^item> \<open>struct Order\<close> and the class are records with the source's field names (the field
    \<open>id\<close> is \<open>order_id\<close>, since \<open>id\<close> is the identity function of HOL);
  \<^item> \<open>double price\<close> is a \<open>real\<close>: the code only compares and prints prices, and the
    comparisons of finite doubles are those of the reals they denote. NaN and the
    infinities are outside the model (a NaN price is not positive, so no valid
    submission has one);
  \<^item> \<open>int quantity\<close> is an \<open>int\<close>. Lemma \<open>matchStep_in_range\<close> shows that on a book with
    quantities between 0 and \<open>INT_MAX\<close> both subtractions of the loop body stay in that
    range, and lemma \<open>placeOrders_valid_quantities\<close> that valid submissions on a new
    simulator only reach such books: there no subtraction of the model overflows in C++.
    With a negative resting quantity the C++ subtraction can overflow, which is
    undefined; the model then goes on with the mathematical value;
  \<^item> \<open>orderIdCounter++\<close> at \<open>INT_MAX\<close> is a signed overflow, which C++ leaves undefined:
    \<open>placeOrder\<close> has the outcome \<open>SignedOverflow\<close> there and no successor state;
  \<^item> the line printed by \<open>matchOrders\<close> ("Trade executed: q units at $p") is a \<open>Trade\<close>
    appended to the list of trades that the model returns;
  \<^item> \<open>std::sort\<close> is a parameter \<open>srt\<close> of \<open>placeOrder\<close>. The C++ standard promises a
    permutation of the input that is sorted for the comparator and leaves the order of
    equivalent elements unspecified; \<open>std_sort\<close> is that contract. Where a property
    depends on the order of orders of equal price, the parameter is \<open>libstdcxx_sort\<close>,
    the \<open>std::sort\<close> of libstdc++.
\<close>

subsection \<open>Data\<close>

record Order =
  order_id :: int
  isBuy :: bool
  price :: real
  quantity :: int

record ExchangeSimulator =
  buyOrders :: "Order list"
  sellOrders :: "Order list"
  orderIdCounter :: int

record Trade =
  trade_quantity :: int
  trade_price :: real

datatype error = SignedOverflow

definition INT_MAX :: int where
  "INT_MAX = 2147483647"

text \<open>The constructor \<open>ExchangeSimulator() : orderIdCounter(0) {}\<close>.\<close>

definition newExchangeSimulator :: ExchangeSimulator where
  "newExchangeSimulator = \<lparr>buyOrders = [], sellOrders = [], orderIdCounter = 0\<rparr>"

subsection \<open>\<open>std::sort\<close>\<close>

type_synonym sorter = "(Order \<Rightarrow> Order \<Rightarrow> bool) \<Rightarrow> Order list \<Rightarrow> Order list"

text \<open>The two comparators that \<open>placeOrder\<close> passes to \<open>std::sort\<close> (lines 55 and 59).\<close>

definition buyCmp :: "Order \<Rightarrow> Order \<Rightarrow> bool" where
  "buyCmp a b \<longleftrightarrow> price a > price b"

definition sellCmp :: "Order \<Rightarrow> Order \<Rightarrow> bool" where
  "sellCmp a b \<longleftrightarrow> price a < price b"

definition strict_weak_order :: "(Order \<Rightarrow> Order \<Rightarrow> bool) \<Rightarrow> bool" where
  "strict_weak_order c \<longleftrightarrow>
     (\<forall>x. \<not> c x x) \<and>
     (\<forall>x y z. c x y \<and> c y z \<longrightarrow> c x z) \<and>
     (\<forall>x y z. \<not> c x y \<and> \<not> c y x \<and> \<not> c y z \<and> \<not> c z y \<longrightarrow> \<not> c x z \<and> \<not> c z x)"

text \<open>
  The contract of \<open>std::sort\<close> in the C++ standard: for a comparator that is a strict weak
  order, the result is a permutation of the input in which no element is followed by one
  that the comparator puts before it.
\<close>

definition std_sort :: "sorter \<Rightarrow> bool" where
  "std_sort srt \<longleftrightarrow>
     (\<forall>c xs. strict_weak_order c \<longrightarrow>
        mset (srt c xs) = mset xs \<and> sorted_wrt (\<lambda>x y. \<not> c y x) (srt c xs))"

text \<open>
  The contract of \<open>std::stable_sort\<close>: that of \<open>std::sort\<close>, and elements that are
  equivalent for the comparator keep their relative order.
\<close>

definition std_stable_sort :: "sorter \<Rightarrow> bool" where
  "std_stable_sort srt \<longleftrightarrow>
     std_sort srt \<and>
     (\<forall>c xs k. strict_weak_order c \<longrightarrow>
        filter (\<lambda>x. \<not> c x k \<and> \<not> c k x) (srt c xs) = filter (\<lambda>x. \<not> c x k \<and> \<not> c k x) xs)"

text \<open>
  A sorting routine that meets the contract of \<open>std::sort\<close>, to run the model on concrete
  inputs: \<open>insertion_sort\<close> inserts each element behind its equivalents and is stable.
\<close>

fun insert_sorted :: "(Order \<Rightarrow> Order \<Rightarrow> bool) \<Rightarrow> Order \<Rightarrow> Order list \<Rightarrow> Order list" where
  "insert_sorted c x [] = [x]"
| "insert_sorted c x (y # ys) = (if c x y then x # y # ys else y # insert_sorted c x ys)"

definition insertion_sort :: sorter where
  "insertion_sort c xs = foldl (\<lambda>acc x. insert_sorted c x acc) [] xs"

subsection \<open>The \<open>std::sort\<close> of libstdc++\<close>

text \<open>
  The order that \<open>std::sort\<close> gives to orders of equal price is not fixed by its contract
  but by the library the program is built with. This is the \<open>std::sort\<close> of libstdc++
  (GCC, \<open>bits/stl_algo.h\<close> and \<open>bits/stl_heap.h\<close>), which is not part of the repository;
  the model follows the library's routines one by one and keeps their names (\<open>lst\<close> for
  \<open>__last\<close> and \<open>cut'\<close> for \<open>__cut\<close>, which are constants of HOL). The vector is a list,
  iterators are indices into it, and each routine returns the vector it leaves.

  \<open>__sort\<close> runs \<open>__introsort_loop\<close> with depth limit \<open>2 * __lg(n)\<close> and then
  \<open>__final_insertion_sort\<close>. The loop partitions ranges of more than \<open>_S_threshold = 16\<close>
  elements around a median of three and falls back to heap sort (\<open>__partial_sort\<close>) at
  depth 0. Vectors of at most 16 elements are sorted by \<open>__insertion_sort\<close> alone.

  The library's unguarded loops (\<open>__unguarded_linear_insert\<close>, the two scans of
  \<open>__unguarded_partition\<close>) have no bound check: a strict weak order stops them inside the
  vector, and leaving it would be undefined. The model stops them at the ends of the
  vector. \<open>__insertion_sort\<close> and \<open>__final_insertion_sort\<close> are only called on the front of
  the vector, so their \<open>__first\<close> is index 0; \<open>__partial_sort\<close> is only called with
  \<open>__middle = __last\<close>, so \<open>__heap_select\<close> is \<open>__make_heap\<close>.
\<close>

definition iter_swap :: "nat \<Rightarrow> nat \<Rightarrow> 'a list \<Rightarrow> 'a list" where
  "iter_swap i j xs = xs[i := xs ! j, j := xs ! i]"

fun lg :: "nat \<Rightarrow> nat" where
  "lg n = (if n < 2 then 0 else Suc (lg (n div 2)))"

declare lg.simps [simp del]

fun unguarded_linear_insert :: "('a \<Rightarrow> 'a \<Rightarrow> bool) \<Rightarrow> 'a \<Rightarrow> 'a list \<Rightarrow> nat \<Rightarrow> 'a list" where
  "unguarded_linear_insert c val xs 0 = xs[0 := val]"
| "unguarded_linear_insert c val xs (Suc next) =
     (if c val (xs ! next)
      then unguarded_linear_insert c val (xs[Suc next := xs ! next]) next
      else xs[Suc next := val])"

definition insertion_step :: "('a \<Rightarrow> 'a \<Rightarrow> bool) \<Rightarrow> 'a list \<Rightarrow> nat \<Rightarrow> 'a list" where
  "insertion_step c xs i =
     (if c (xs ! i) (xs ! 0) then (xs ! i) # take i xs @ drop (Suc i) xs
      else unguarded_linear_insert c (xs ! i) xs i)"

definition libstdcxx_insertion_sort :: "('a \<Rightarrow> 'a \<Rightarrow> bool) \<Rightarrow> 'a list \<Rightarrow> nat \<Rightarrow> 'a list" where
  "libstdcxx_insertion_sort c xs lst = foldl (insertion_step c) xs [1..<lst]"

definition unguarded_insertion_sort :: "('a \<Rightarrow> 'a \<Rightarrow> bool) \<Rightarrow> 'a list \<Rightarrow> nat \<Rightarrow> nat \<Rightarrow> 'a list" where
  "unguarded_insertion_sort c xs first lst =
     foldl (\<lambda>ys i. unguarded_linear_insert c (ys ! i) ys i) xs [first..<lst]"

definition final_insertion_sort :: "('a \<Rightarrow> 'a \<Rightarrow> bool) \<Rightarrow> 'a list \<Rightarrow> 'a list" where
  "final_insertion_sort c xs =
     (if length xs > 16
      then unguarded_insertion_sort c (libstdcxx_insertion_sort c xs 16) 16 (length xs)
      else libstdcxx_insertion_sort c xs (length xs))"

definition move_median_to_first ::
  "('a \<Rightarrow> 'a \<Rightarrow> bool) \<Rightarrow> 'a list \<Rightarrow> nat \<Rightarrow> nat \<Rightarrow> nat \<Rightarrow> nat \<Rightarrow> 'a list" where
  "move_median_to_first c xs result a b cc =
     (if c (xs ! a) (xs ! b) then
        (if c (xs ! b) (xs ! cc) then iter_swap result b xs
         else if c (xs ! a) (xs ! cc) then iter_swap result cc xs
         else iter_swap result a xs)
      else if c (xs ! a) (xs ! cc) then iter_swap result a xs
      else if c (xs ! b) (xs ! cc) then iter_swap result cc xs
      else iter_swap result b xs)"

function scan_up :: "('a \<Rightarrow> 'a \<Rightarrow> bool) \<Rightarrow> 'a list \<Rightarrow> nat \<Rightarrow> nat \<Rightarrow> nat" where
  "scan_up c xs pivot first =
     (if first < length xs \<and> c (xs ! first) (xs ! pivot)
      then scan_up c xs pivot (Suc first) else first)"
  by pat_completeness auto
termination
  by (relation "measure (\<lambda>(c, xs, pivot, first). length xs - first)") auto

declare scan_up.simps [simp del]

fun scan_down :: "('a \<Rightarrow> 'a \<Rightarrow> bool) \<Rightarrow> 'a list \<Rightarrow> nat \<Rightarrow> nat \<Rightarrow> nat" where
  "scan_down c xs pivot 0 = 0"
| "scan_down c xs pivot (Suc l) =
     (if c (xs ! pivot) (xs ! Suc l) then scan_down c xs pivot l else Suc l)"

lemma scan_down_le: "scan_down c xs pivot l \<le> l"
  by (induction l) auto

function unguarded_partition ::
  "('a \<Rightarrow> 'a \<Rightarrow> bool) \<Rightarrow> 'a list \<Rightarrow> nat \<Rightarrow> nat \<Rightarrow> nat \<Rightarrow> nat \<times> 'a list" where
  "unguarded_partition c xs first lst pivot =
     (let first' = scan_up c xs pivot first;
          lst' = scan_down c xs pivot (lst - 1)
      in if \<not> first' < lst' then (first', xs)
         else unguarded_partition c (iter_swap first' lst' xs) (Suc first') lst' pivot)"
  by pat_completeness auto
termination
proof (relation "measure (\<lambda>(c, xs, first, lst, pivot). lst)", goal_cases)
  case 1
  show ?case by simp
next
  case (2 c xs first lst pivot x xa)
  with scan_down_le [of c xs pivot "lst - 1"] show ?case by simp
qed

declare unguarded_partition.simps [simp del]

definition unguarded_partition_pivot ::
  "('a \<Rightarrow> 'a \<Rightarrow> bool) \<Rightarrow> 'a list \<Rightarrow> nat \<Rightarrow> nat \<Rightarrow> nat \<times> 'a list" where
  "unguarded_partition_pivot c xs first lst =
     (let mid = first + (lst - first) div 2;
          xs' = move_median_to_first c xs first (first + 1) mid (lst - 1)
      in unguarded_partition c xs' (first + 1) lst first)"

function push_heap ::
  "('a \<Rightarrow> 'a \<Rightarrow> bool) \<Rightarrow> 'a list \<Rightarrow> nat \<Rightarrow> nat \<Rightarrow> nat \<Rightarrow> 'a \<Rightarrow> 'a list" where
  "push_heap c xs first holeIndex topIndex v =
     (let parent = (holeIndex - 1) div 2
      in if holeIndex > topIndex \<and> c (xs ! (first + parent)) v
         then push_heap c (xs[first + holeIndex := xs ! (first + parent)]) first parent topIndex v
         else xs[first + holeIndex := v])"
  by pat_completeness auto
termination
  by (relation "measure (\<lambda>(c, xs, first, holeIndex, topIndex, v). holeIndex)") auto

declare push_heap.simps [simp del]

function sift_down ::
  "('a \<Rightarrow> 'a \<Rightarrow> bool) \<Rightarrow> 'a list \<Rightarrow> nat \<Rightarrow> nat \<Rightarrow> nat \<Rightarrow> nat \<times> 'a list" where
  "sift_down c xs first hole len =
     (if hole < (len - 1) div 2 then
        let secondChild = 2 * (hole + 1);
            child = (if c (xs ! (first + secondChild)) (xs ! (first + (secondChild - 1)))
                     then secondChild - 1 else secondChild)
        in sift_down c (xs[first + hole := xs ! (first + child)]) first child len
      else (hole, xs))"
  by pat_completeness auto
termination
  by (relation "measure (\<lambda>(c, xs, first, hole, len). len - hole)") auto

declare sift_down.simps [simp del]

definition adjust_heap ::
  "('a \<Rightarrow> 'a \<Rightarrow> bool) \<Rightarrow> 'a list \<Rightarrow> nat \<Rightarrow> nat \<Rightarrow> nat \<Rightarrow> 'a \<Rightarrow> 'a list" where
  "adjust_heap c xs first holeIndex len v =
     (case sift_down c xs first holeIndex len of
        (hole, xs1) \<Rightarrow>
          if len mod 2 = 0 \<and> hole = (len - 2) div 2
          then push_heap c (xs1[first + hole := xs1 ! (first + (2 * (hole + 1) - 1))])
                 first (2 * (hole + 1) - 1) holeIndex v
          else push_heap c xs1 first hole holeIndex v)"

definition pop_heap :: "('a \<Rightarrow> 'a \<Rightarrow> bool) \<Rightarrow> 'a list \<Rightarrow> nat \<Rightarrow> nat \<Rightarrow> nat \<Rightarrow> 'a list" where
  "pop_heap c xs first lst result =
     adjust_heap c (xs[result := xs ! first]) first 0 (lst - first) (xs ! result)"

definition make_heap :: "('a \<Rightarrow> 'a \<Rightarrow> bool) \<Rightarrow> 'a list \<Rightarrow> nat \<Rightarrow> nat \<Rightarrow> 'a list" where
  "make_heap c xs first lst =
     (let len = lst - first
      in if len < 2 then xs
         else foldl (\<lambda>ys parent. adjust_heap c ys first parent len (ys ! (first + parent)))
                xs (rev [0..<Suc ((len - 2) div 2)]))"

definition sort_heap :: "('a \<Rightarrow> 'a \<Rightarrow> bool) \<Rightarrow> 'a list \<Rightarrow> nat \<Rightarrow> nat \<Rightarrow> 'a list" where
  "sort_heap c xs first lst =
     foldl (\<lambda>ys l. pop_heap c ys first l l) xs (rev [Suc first..<lst])"

definition partial_sort :: "('a \<Rightarrow> 'a \<Rightarrow> bool) \<Rightarrow> 'a list \<Rightarrow> nat \<Rightarrow> nat \<Rightarrow> 'a list" where
  "partial_sort c xs first lst = sort_heap c (make_heap c xs first lst) first lst"

fun introsort_loop ::
  "('a \<Rightarrow> 'a \<Rightarrow> bool) \<Rightarrow> 'a list \<Rightarrow> nat \<Rightarrow> nat \<Rightarrow> nat \<Rightarrow> 'a list" where
  "introsort_loop c xs first lst 0 =
     (if lst - first > 16 then partial_sort c xs first lst else xs)"
| "introsort_loop c xs first lst (Suc depth_limit) =
     (if lst - first > 16 then
        (case unguarded_partition_pivot c xs first lst of
           (cut', xs') \<Rightarrow>
             introsort_loop c (introsort_loop c xs' cut' lst depth_limit) first cut' depth_limit)
      else xs)"

definition libstdcxx_sort :: "('a \<Rightarrow> 'a \<Rightarrow> bool) \<Rightarrow> 'a list \<Rightarrow> 'a list" where
  "libstdcxx_sort c xs =
     (if xs = [] then xs
      else final_insertion_sort c (introsort_loop c xs 0 (length xs) (lg (length xs) * 2)))"

subsection \<open>\<open>matchOrders\<close>\<close>

text \<open>
  One pass through the body of the \<open>while\<close> loop (lines 66 to 80): \<open>None\<close> when the loop
  ends (a side is empty, or the \<open>break\<close>), otherwise the printed trade and the next state.
  Each of the two \<open>erase\<close> calls looks at its own front only.
\<close>

definition matchStep :: "ExchangeSimulator \<Rightarrow> (Trade \<times> ExchangeSimulator) option" where
  "matchStep s =
     (case buyOrders s of
        [] \<Rightarrow> None
      | b # bs \<Rightarrow>
         (case sellOrders s of
            [] \<Rightarrow> None
          | a # as \<Rightarrow>
             if price b \<ge> price a then
               let q = min (quantity b) (quantity a);
                   t = \<lparr>trade_quantity = q, trade_price = price a\<rparr>;
                   b' = b\<lparr>quantity := quantity b - q\<rparr>;
                   a' = a\<lparr>quantity := quantity a - q\<rparr>
               in Some (t, s\<lparr>buyOrders := (if quantity b' = 0 then bs else b' # bs),
                             sellOrders := (if quantity a' = 0 then as else a' # as)\<rparr>)
             else None))"

function matchOrders :: "ExchangeSimulator \<Rightarrow> Trade list \<times> ExchangeSimulator" where
  "matchOrders s =
     (case matchStep s of
        None \<Rightarrow> ([], s)
      | Some (t, s') \<Rightarrow> (case matchOrders s' of (ts, s'') \<Rightarrow> (t # ts, s'')))"
  by pat_completeness auto
termination
  by (relation "measure (\<lambda>s. length (buyOrders s) + length (sellOrders s))")
     (auto simp: matchStep_def Let_def min_def split: list.splits if_splits)

declare matchOrders.simps [simp del]

text \<open>
  The same loop with a bound on the number of passes: \<open>None\<close> when the bound is reached
  before the loop ends.
\<close>

fun matchLoop :: "nat \<Rightarrow> ExchangeSimulator \<Rightarrow> (Trade list \<times> ExchangeSimulator) option" where
  "matchLoop 0 s = None"
| "matchLoop (Suc n) s =
     (case matchStep s of
        None \<Rightarrow> Some ([], s)
      | Some (t, s') \<Rightarrow>
         (case matchLoop n s' of None \<Rightarrow> None | Some (ts, s'') \<Rightarrow> Some (t # ts, s'')))"

text \<open>The state at the start of pass \<open>n\<close> of the loop (counted from 0).\<close>

fun stateAfter :: "nat \<Rightarrow> ExchangeSimulator \<Rightarrow> ExchangeSimulator" where
  "stateAfter 0 s = s"
| "stateAfter (Suc n) s = (case matchStep s of None \<Rightarrow> s | Some (t, s') \<Rightarrow> stateAfter n s')"

subsection \<open>\<open>placeOrder\<close>\<close>

text \<open>
  Lines 51 to 60: the order is built with the current value of the counter, which is
  incremented; then \<open>push_back\<close> on the order's side and \<open>std::sort\<close> of that side.
\<close>

definition insertOrder :: "sorter \<Rightarrow> ExchangeSimulator \<Rightarrow> bool \<Rightarrow> real \<Rightarrow> int \<Rightarrow> ExchangeSimulator" where
  "insertOrder srt s b p q =
     (let order = \<lparr>order_id = orderIdCounter s, isBuy = b, price = p, quantity = q\<rparr>;
          s1 = s\<lparr>orderIdCounter := orderIdCounter s + 1\<rparr>
      in if b
         then s1\<lparr>buyOrders := srt buyCmp (buyOrders s1 @ [order])\<rparr>
         else s1\<lparr>sellOrders := srt sellCmp (sellOrders s1 @ [order])\<rparr>)"

text \<open>
  \<open>placeOrder\<close> returns the id of the order; the model returns with it the trades printed
  during the call and the state afterwards. The source checks neither price nor quantity.
\<close>

definition placeOrder ::
  "sorter \<Rightarrow> ExchangeSimulator \<Rightarrow> bool \<Rightarrow> real \<Rightarrow> int \<Rightarrow> error + (int \<times> Trade list \<times> ExchangeSimulator)"
where
  "placeOrder srt s b p q =
     (if orderIdCounter s \<ge> INT_MAX then Inl SignedOverflow
      else (case matchOrders (insertOrder srt s b p q) of
              (ts, s') \<Rightarrow> Inr (orderIdCounter s, ts, s')))"

text \<open>
  A sequence of calls of \<open>placeOrder\<close> on one simulator, as in \<open>main\<close> (lines 149 to 152):
  the ids returned and the trades printed, each in call order, and the final state.
\<close>

type_synonym submission = "bool \<times> real \<times> int"

fun placeOrders ::
  "sorter \<Rightarrow> ExchangeSimulator \<Rightarrow> submission list \<Rightarrow> error + (int list \<times> Trade list \<times> ExchangeSimulator)"
where
  "placeOrders srt s [] = Inr ([], [], s)"
| "placeOrders srt s ((b, p, q) # subs) =
     (case placeOrder srt s b p q of
        Inl e \<Rightarrow> Inl e
      | Inr (i, ts, s') \<Rightarrow>
         (case placeOrders srt s' subs of
            Inl e \<Rightarrow> Inl e
          | Inr (ids, ts', s'') \<Rightarrow> Inr (i # ids, ts @ ts', s'')))"

text \<open>The four calls of \<open>main\<close> (lines 149 to 152).\<close>

definition main_submissions :: "submission list" where
  "main_submissions = [(True, 100, 100), (True, 99, 50), (False, 100, 75), (False, 101, 25)]"

text \<open>
  Every call of the run sorts at most \<open>n\<close> orders: the side that receives the order holds
  fewer than \<open>n\<close> orders before the call.
\<close>

fun sortsAtMost :: "nat \<Rightarrow> sorter \<Rightarrow> ExchangeSimulator \<Rightarrow> submission list \<Rightarrow> bool" where
  "sortsAtMost n srt s [] = True"
| "sortsAtMost n srt s ((b, p, q) # subs) =
     (length (if b then buyOrders s else sellOrders s) < n \<and>
      (case placeOrder srt s b p q of
         Inl e \<Rightarrow> True
       | Inr (i, ts, s') \<Rightarrow> sortsAtMost n srt s' subs))"

text \<open>
  A run of \<open>2 ^ 31 + 2\<close> valid submissions: a buy and a sell of one unit at price 1, over
  and over. Each pair trades and leaves the book empty.
\<close>

definition overflow_run :: "submission list" where
  "overflow_run = concat (replicate 1073741825 [(True, 1, 1), (False, 1, 1)])"

subsection \<open>The properties of the book\<close>

text \<open>A submission that the specification calls valid: positive price and quantity.\<close>

definition valid_submission :: "submission \<Rightarrow> bool" where
  "valid_submission sub \<longleftrightarrow> (case sub of (b, p, q) \<Rightarrow> 0 < p \<and> 0 < q \<and> q \<le> INT_MAX)"

definition nonCrossing :: "ExchangeSimulator \<Rightarrow> bool" where
  "nonCrossing s \<longleftrightarrow>
     buyOrders s = [] \<or> sellOrders s = [] \<or>
     price (hd (buyOrders s)) < price (hd (sellOrders s))"

definition totalQuantity :: "Order list \<Rightarrow> int" where
  "totalQuantity xs = sum_list (map quantity xs)"

definition restingQuantity :: "ExchangeSimulator \<Rightarrow> int" where
  "restingQuantity s = totalQuantity (buyOrders s) + totalQuantity (sellOrders s)"

definition allPositive :: "ExchangeSimulator \<Rightarrow> bool" where
  "allPositive s \<longleftrightarrow> list_all (\<lambda>x. 0 < quantity x) (buyOrders s @ sellOrders s)"

definition inRange :: "ExchangeSimulator \<Rightarrow> bool" where
  "inRange s \<longleftrightarrow>
     list_all (\<lambda>x. 0 \<le> quantity x \<and> quantity x \<le> INT_MAX) (buyOrders s @ sellOrders s)"

definition bidsSorted :: "Order list \<Rightarrow> bool" where
  "bidsSorted xs \<longleftrightarrow> sorted_wrt (\<lambda>x y. price x \<ge> price y) xs"

definition asksSorted :: "Order list \<Rightarrow> bool" where
  "asksSorted xs \<longleftrightarrow> sorted_wrt (\<lambda>x y. price x \<le> price y) xs"

definition fifo :: "Order list \<Rightarrow> bool" where
  "fifo xs \<longleftrightarrow> sorted_wrt (\<lambda>x y. price x = price y \<longrightarrow> order_id x < order_id y) xs"

definition idsBelow :: "ExchangeSimulator \<Rightarrow> bool" where
  "idsBelow s \<longleftrightarrow>
     list_all (\<lambda>x. order_id x < orderIdCounter s) (buyOrders s @ sellOrders s)"

section \<open>Lemmas\<close>

subsection \<open>Unfolding the loop\<close>

lemma matchOrders_None: "matchStep s = None \<Longrightarrow> matchOrders s = ([], s)"
  by (simp add: matchOrders.simps [of s])

lemma matchOrders_Some:
  "matchStep s = Some (t, s') \<Longrightarrow>
     matchOrders s = (t # fst (matchOrders s'), snd (matchOrders s'))"
  by (simp add: matchOrders.simps [of s] split: prod.splits)

lemma matchOrders_cases [case_names exit pass]:
  assumes "\<And>s. matchStep s = None \<Longrightarrow> P s"
    and "\<And>s t s'. matchStep s = Some (t, s') \<Longrightarrow> P s' \<Longrightarrow> P s"
  shows "P s"
proof (induction s rule: matchOrders.induct)
  case (1 s)
  show ?case
  proof (cases "matchStep s")
    case None
    then show ?thesis by (rule assms(1))
  next
    case (Some r)
    obtain t s' where r: "r = (t, s')" by (cases r)
    from Some r have st: "matchStep s = Some (t, s')" by simp
    from "1.IH" [OF st refl] have "P s'" .
    with st show ?thesis by (rule assms(2))
  qed
qed

lemma matchStep_None_nonCrossing: "matchStep s = None \<Longrightarrow> nonCrossing s"
  by (auto simp: matchStep_def nonCrossing_def Let_def split: list.splits if_splits)

lemma nonCrossing_matchStep_None: "nonCrossing s \<Longrightarrow> matchStep s = None"
  by (auto simp: matchStep_def nonCrossing_def Let_def split: list.splits if_splits)

lemma matchOrders_nonCrossing: "nonCrossing (snd (matchOrders s))"
  by (induction s rule: matchOrders_cases)
     (simp_all add: matchOrders_None matchOrders_Some matchStep_None_nonCrossing)

lemma placeOrder_Inr:
  "placeOrder srt s b p q = Inr (i, ts, s') \<longleftrightarrow>
     orderIdCounter s < INT_MAX \<and> i = orderIdCounter s \<and>
     matchOrders (insertOrder srt s b p q) = (ts, s')"
  by (auto simp: placeOrder_def split: prod.splits)

lemma placeOrder_nonCrossing:
  "placeOrder srt s b p q = Inr (i, ts, s') \<Longrightarrow> nonCrossing s'"
  using matchOrders_nonCrossing [of "insertOrder srt s b p q"]
  by (simp add: placeOrder_Inr)

subsection \<open>The sorting contract\<close>

lemma strict_weak_order_buyCmp: "strict_weak_order buyCmp"
  by (auto simp: strict_weak_order_def buyCmp_def)

lemma strict_weak_order_sellCmp: "strict_weak_order sellCmp"
  by (auto simp: strict_weak_order_def sellCmp_def)

lemma std_sort_buyCmp:
  assumes "std_sort srt"
  shows "mset (srt buyCmp xs) = mset xs" and "bidsSorted (srt buyCmp xs)"
proof -
  from assms strict_weak_order_buyCmp
  have m: "mset (srt buyCmp xs) = mset xs"
    and s: "sorted_wrt (\<lambda>x y. \<not> buyCmp y x) (srt buyCmp xs)"
    by (simp_all add: std_sort_def)
  show "mset (srt buyCmp xs) = mset xs" by (rule m)
  have "(\<lambda>x y. \<not> buyCmp y x) = (\<lambda>x y. price x \<ge> price y)"
    by (auto simp: buyCmp_def fun_eq_iff)
  with s show "bidsSorted (srt buyCmp xs)" by (simp add: bidsSorted_def)
qed

lemma std_sort_sellCmp:
  assumes "std_sort srt"
  shows "mset (srt sellCmp xs) = mset xs" and "asksSorted (srt sellCmp xs)"
proof -
  from assms strict_weak_order_sellCmp
  have m: "mset (srt sellCmp xs) = mset xs"
    and s: "sorted_wrt (\<lambda>x y. \<not> sellCmp y x) (srt sellCmp xs)"
    by (simp_all add: std_sort_def)
  show "mset (srt sellCmp xs) = mset xs" by (rule m)
  have "(\<lambda>x y. \<not> sellCmp y x) = (\<lambda>x y. price x \<le> price y)"
    by (auto simp: sellCmp_def fun_eq_iff)
  with s show "asksSorted (srt sellCmp xs)" by (simp add: asksSorted_def)
qed

lemma mset_insert_sorted: "mset (insert_sorted c x ys) = add_mset x (mset ys)"
  by (induction ys) auto

lemma set_insert_sorted: "set (insert_sorted c x ys) = insert x (set ys)"
  by (induction ys) auto

lemma sorted_insert_sorted:
  assumes "strict_weak_order c" and "sorted_wrt (\<lambda>x y. \<not> c y x) ys"
  shows "sorted_wrt (\<lambda>x y. \<not> c y x) (insert_sorted c x ys)"
  using assms(2)
proof (induction ys)
  case Nil
  then show ?case by simp
next
  case (Cons y ys)
  from assms(1) have irr: "\<And>u. \<not> c u u" and tr: "\<And>u v w. c u v \<Longrightarrow> c v w \<Longrightarrow> c u w"
    unfolding strict_weak_order_def by blast+
  show ?case
  proof (cases "c x y")
    case True
    have "\<not> c z x" if "z \<in> set (y # ys)" for z
    proof
      assume "c z x"
      from this True have "c z y" by (rule tr)
      with that Cons.prems irr show False by auto
    qed
    with True Cons.prems show ?thesis by simp
  next
    case False
    with Cons show ?thesis by (auto simp: set_insert_sorted)
  qed
qed

lemma mset_insertion_fold:
  "mset (foldl (\<lambda>acc x. insert_sorted c x acc) acc xs) = mset acc + mset xs"
  by (induction xs arbitrary: acc) (simp_all add: mset_insert_sorted)

lemma sorted_insertion_fold:
  "strict_weak_order c \<Longrightarrow> sorted_wrt (\<lambda>x y. \<not> c y x) acc \<Longrightarrow>
     sorted_wrt (\<lambda>x y. \<not> c y x) (foldl (\<lambda>acc x. insert_sorted c x acc) acc xs)"
  by (induction xs arbitrary: acc) (simp_all add: sorted_insert_sorted)

lemma std_sort_insertion_sort: "std_sort insertion_sort"
  by (simp add: std_sort_def insertion_sort_def mset_insertion_fold sorted_insertion_fold)

lemma filter_insert_sorted:
  assumes swo: "strict_weak_order c" and srt: "sorted_wrt (\<lambda>x y. \<not> c y x) ys"
  shows "filter (\<lambda>z. \<not> c z k \<and> \<not> c k z) (insert_sorted c x ys) =
         filter (\<lambda>z. \<not> c z k \<and> \<not> c k z) ys @ (if \<not> c x k \<and> \<not> c k x then [x] else [])"
  using srt
proof (induction ys)
  case Nil
  then show ?case by simp
next
  case (Cons y ys)
  from swo have tr: "\<And>u v w. c u v \<Longrightarrow> c v w \<Longrightarrow> c u w"
    and eq: "\<And>u v w. \<not> c u v \<Longrightarrow> \<not> c v u \<Longrightarrow> \<not> c v w \<Longrightarrow> \<not> c w v \<Longrightarrow> \<not> c u w \<and> \<not> c w u"
    unfolding strict_weak_order_def by blast+
  show ?case
  proof (cases "c x y")
    case True
    have none: "\<not> (\<not> c z k \<and> \<not> c k z)" if xk: "\<not> c x k \<and> \<not> c k x" and z: "z \<in> set (y # ys)" for z
    proof
      assume zk: "\<not> c z k \<and> \<not> c k z"
      with xk eq [of x k z] have xz: "\<not> c x z \<and> \<not> c z x" by blast
      from z Cons.prems have "z = y \<or> \<not> c z y" by auto
      then show False
      proof
        assume "z = y" with True xz show False by simp
      next
        assume nzy: "\<not> c z y"
        show False
        proof (cases "c y z")
          case True
          with \<open>c x y\<close> have "c x z" by (rule tr)
          with xz show False by simp
        next
          case False
          with nzy xz eq [of x z y] have "\<not> c x y" by blast
          with \<open>c x y\<close> show False by simp
        qed
      qed
    qed
    show ?thesis
    proof (cases "\<not> c x k \<and> \<not> c k x")
      case xk: True
      with none have "filter (\<lambda>z. \<not> c z k \<and> \<not> c k z) (y # ys) = []"
        by (simp only: filter_empty_conv) blast
      with True xk show ?thesis by simp
    next
      case False
      with True show ?thesis by auto
    qed
  next
    case False
    with Cons show ?thesis by auto
  qed
qed

lemma filter_insertion_fold:
  "strict_weak_order c \<Longrightarrow> sorted_wrt (\<lambda>x y. \<not> c y x) acc \<Longrightarrow>
     filter (\<lambda>z. \<not> c z k \<and> \<not> c k z) (foldl (\<lambda>acc x. insert_sorted c x acc) acc xs) =
     filter (\<lambda>z. \<not> c z k \<and> \<not> c k z) acc @ filter (\<lambda>z. \<not> c z k \<and> \<not> c k z) xs"
  by (induction xs arbitrary: acc) (simp_all add: sorted_insert_sorted filter_insert_sorted)

lemma std_stable_sort_insertion_sort: "std_stable_sort insertion_sort"
  unfolding std_stable_sort_def
  by (simp add: std_sort_insertion_sort) (simp add: insertion_sort_def filter_insertion_fold)

subsection \<open>What one pass of the loop keeps\<close>

lemma matchStep_counter:
  "matchStep s = Some (t, s') \<Longrightarrow> orderIdCounter s' = orderIdCounter s"
  by (auto simp: matchStep_def Let_def split: list.splits if_splits)

lemma matchStep_sorted_wrt:
  assumes "matchStep s = Some (t, s')" and "\<And>x y n. R (x\<lparr>quantity := n\<rparr>) y = R x y"
  shows "sorted_wrt R (buyOrders s) \<Longrightarrow> sorted_wrt R (buyOrders s')"
    and "sorted_wrt R (sellOrders s) \<Longrightarrow> sorted_wrt R (sellOrders s')"
  using assms by (auto simp: matchStep_def Let_def split: list.splits if_splits)

lemma matchOrders_sorted_wrt_buy:
  assumes "\<And>x y n. R (x\<lparr>quantity := n\<rparr>) y = R x y"
  shows "sorted_wrt R (buyOrders s) \<Longrightarrow> sorted_wrt R (buyOrders (snd (matchOrders s)))"
proof (induction s rule: matchOrders_cases)
  case (exit s)
  then show ?case by (simp add: matchOrders_None)
next
  case (pass s t s')
  from matchStep_sorted_wrt(1) [OF pass(1) assms pass(3)] pass(1,2)
  show ?case by (simp add: matchOrders_Some)
qed

lemma matchOrders_sorted_wrt_sell:
  assumes "\<And>x y n. R (x\<lparr>quantity := n\<rparr>) y = R x y"
  shows "sorted_wrt R (sellOrders s) \<Longrightarrow> sorted_wrt R (sellOrders (snd (matchOrders s)))"
proof (induction s rule: matchOrders_cases)
  case (exit s)
  then show ?case by (simp add: matchOrders_None)
next
  case (pass s t s')
  from matchStep_sorted_wrt(2) [OF pass(1) assms pass(3)] pass(1,2)
  show ?case by (simp add: matchOrders_Some)
qed

lemma matchOrders_counter: "orderIdCounter (snd (matchOrders s)) = orderIdCounter s"
  by (induction s rule: matchOrders_cases)
     (simp_all add: matchOrders_None matchOrders_Some matchStep_counter)

lemma matchStep_idsBelow: "matchStep s = Some (t, s') \<Longrightarrow> idsBelow s \<Longrightarrow> idsBelow s'"
  by (auto simp: matchStep_def idsBelow_def Let_def split: list.splits if_splits)

lemma matchOrders_idsBelow: "idsBelow s \<Longrightarrow> idsBelow (snd (matchOrders s))"
  by (induction s rule: matchOrders_cases)
     (simp_all add: matchOrders_None matchOrders_Some matchStep_idsBelow)

subsection \<open>Quantities\<close>

lemma matchStep_totalQuantity:
  assumes "matchStep s = Some (t, s')"
  shows "totalQuantity (buyOrders s') = totalQuantity (buyOrders s) - trade_quantity t"
    and "totalQuantity (sellOrders s') = totalQuantity (sellOrders s) - trade_quantity t"
  using assms
  by (auto simp: matchStep_def totalQuantity_def Let_def split: list.splits if_splits)

lemma matchOrders_totalQuantity:
  "totalQuantity (buyOrders (snd (matchOrders s))) =
     totalQuantity (buyOrders s) - sum_list (map trade_quantity (fst (matchOrders s)))"
  "totalQuantity (sellOrders (snd (matchOrders s))) =
     totalQuantity (sellOrders s) - sum_list (map trade_quantity (fst (matchOrders s)))"
  by (induction s rule: matchOrders_cases)
     (simp_all add: matchOrders_None matchOrders_Some matchStep_totalQuantity)

lemma matchStep_allPositive:
  assumes "matchStep s = Some (t, s')" and "allPositive s"
  shows "allPositive s'" and "0 < trade_quantity t"
  using assms
  by (auto simp: matchStep_def allPositive_def Let_def min_def split: list.splits if_splits)

lemma matchStep_in_range:
  "matchStep s = Some (t, s') \<Longrightarrow> inRange s \<Longrightarrow>
     inRange s' \<and> 0 \<le> trade_quantity t \<and> trade_quantity t \<le> INT_MAX"
  by (auto simp: matchStep_def inRange_def Let_def min_def split: list.splits if_splits)

lemma matchOrders_allPositive: "allPositive s \<Longrightarrow> allPositive (snd (matchOrders s))"
  by (induction s rule: matchOrders_cases)
     (simp_all add: matchOrders_None matchOrders_Some matchStep_allPositive)

lemma matchOrders_inRange: "inRange s \<Longrightarrow> inRange (snd (matchOrders s))"
  by (induction s rule: matchOrders_cases)
     (simp_all add: matchOrders_None matchOrders_Some matchStep_in_range)

lemma totalQuantity_nonneg: "list_all (\<lambda>x. 0 < quantity x) xs \<Longrightarrow> 0 \<le> totalQuantity xs"
  by (induction xs) (auto simp: totalQuantity_def)

lemma restingQuantity_nonneg: "allPositive s \<Longrightarrow> 0 \<le> restingQuantity s"
  by (simp add: allPositive_def restingQuantity_def totalQuantity_nonneg)

lemma matchStep_restingQuantity:
  "matchStep s = Some (t, s') \<Longrightarrow> allPositive s \<Longrightarrow> restingQuantity s' < restingQuantity s"
  using matchStep_allPositive(2) [of s t s']
  by (simp add: restingQuantity_def matchStep_totalQuantity)

subsection \<open>The bounded loop\<close>

lemma matchLoop_enough:
  "allPositive s \<Longrightarrow> restingQuantity s < int n \<Longrightarrow> matchLoop n s = Some (matchOrders s)"
proof (induction n arbitrary: s)
  case 0
  with restingQuantity_nonneg [of s] show ?case by simp
next
  case (Suc n)
  show ?case
  proof (cases "matchStep s")
    case None
    then show ?thesis by (simp add: matchOrders_None)
  next
    case (Some r)
    obtain t s' where r: "r = (t, s')" by (cases r)
    with Some have st: "matchStep s = Some (t, s')" by simp
    from st Suc.prems(1) have pos: "allPositive s'" by (rule matchStep_allPositive(1))
    from matchStep_restingQuantity [OF st Suc.prems(1)] Suc.prems(2)
    have "restingQuantity s' < int n" by simp
    with pos have "matchLoop n s' = Some (matchOrders s')" by (rule Suc.IH)
    with st show ?thesis by (simp add: matchOrders_Some split: prod.splits)
  qed
qed

text \<open>
  Without any condition on the quantities, every pass erases a front, so one pass more
  than the number of resting orders is enough as well.
\<close>

lemma matchStep_shrinks:
  "matchStep s = Some (t, s') \<Longrightarrow>
     length (buyOrders s') + length (sellOrders s') < length (buyOrders s) + length (sellOrders s)"
  by (auto simp: matchStep_def Let_def min_def split: list.splits if_splits)

lemma matchLoop_enough_orders:
  "length (buyOrders s) + length (sellOrders s) < n \<Longrightarrow> matchLoop n s = Some (matchOrders s)"
proof (induction n arbitrary: s)
  case 0
  then show ?case by simp
next
  case (Suc n)
  show ?case
  proof (cases "matchStep s")
    case None
    then show ?thesis by (simp add: matchOrders_None)
  next
    case (Some r)
    obtain t s' where r: "r = (t, s')" by (cases r)
    with Some have st: "matchStep s = Some (t, s')" by simp
    from matchStep_shrinks [OF st] Suc.prems
    have "length (buyOrders s') + length (sellOrders s') < n" by simp
    then have "matchLoop n s' = Some (matchOrders s')" by (rule Suc.IH)
    with st show ?thesis by (simp add: matchOrders_Some split: prod.splits)
  qed
qed

subsection \<open>Sequences of calls\<close>

lemma placeOrders_Cons_Inr:
  "placeOrders srt s ((b, p, q) # subs) = Inr (ids, ts, s'') \<longleftrightarrow>
     (\<exists>i t1 s1 ids' t2.
        placeOrder srt s b p q = Inr (i, t1, s1) \<and>
        placeOrders srt s1 subs = Inr (ids', t2, s'') \<and> ids = i # ids' \<and> ts = t1 @ t2)"
  by (auto split: sum.splits)

lemma placeOrders_invariant:
  assumes step: "\<And>s b p q i ts s'. I s \<Longrightarrow> placeOrder srt s b p q = Inr (i, ts, s') \<Longrightarrow> I s'"
  shows "I s \<Longrightarrow> placeOrders srt s subs = Inr (ids, ts, s') \<Longrightarrow> I s'"
proof (induction subs arbitrary: s ids ts)
  case Nil
  then show ?case by simp
next
  case (Cons sub subs)
  obtain b p q where sub: "sub = (b, p, q)" by (cases sub)
  from Cons.prems(2) obtain i t1 s1 ids' t2
    where one: "placeOrder srt s b p q = Inr (i, t1, s1)"
      and rest: "placeOrders srt s1 subs = Inr (ids', t2, s')"
    unfolding sub placeOrders_Cons_Inr by blast
  from Cons.prems(1) one have "I s1" by (rule step)
  then show ?case using rest by (rule Cons.IH)
qed

lemma placeOrder_counter:
  "placeOrder srt s b p q = Inr (i, ts, s') \<Longrightarrow> orderIdCounter s' = orderIdCounter s + 1"
  using matchOrders_counter [of "insertOrder srt s b p q"]
  by (auto simp: placeOrder_Inr insertOrder_def Let_def)

lemma placeOrder_returns:
  assumes "orderIdCounter s < INT_MAX"
  shows "\<exists>ts s'. placeOrder srt s b p q = Inr (orderIdCounter s, ts, s') \<and>
                  orderIdCounter s' = orderIdCounter s + 1"
proof -
  obtain ts s' where "matchOrders (insertOrder srt s b p q) = (ts, s')"
    by (cases "matchOrders (insertOrder srt s b p q)")
  with assms have run: "placeOrder srt s b p q = Inr (orderIdCounter s, ts, s')"
    by (simp add: placeOrder_Inr)
  from run placeOrder_counter [OF run] show ?thesis by blast
qed

text \<open>A sequence of calls returns as long as the counter stays within \<open>INT_MAX\<close>.\<close>

lemma placeOrders_returns:
  "orderIdCounter s + int (length subs) \<le> INT_MAX \<Longrightarrow> \<exists>r. placeOrders srt s subs = Inr r"
proof (induction subs arbitrary: s)
  case Nil
  then show ?case by simp
next
  case (Cons sub subs)
  obtain b p q where sub: "sub = (b, p, q)" by (cases sub)
  from Cons.prems have "orderIdCounter s < INT_MAX" by simp
  from placeOrder_returns [OF this, of srt b p q] obtain ts s1
    where one: "placeOrder srt s b p q = Inr (orderIdCounter s, ts, s1)"
      and c: "orderIdCounter s1 = orderIdCounter s + 1"
    by blast
  from c Cons.prems have "orderIdCounter s1 + int (length subs) \<le> INT_MAX" by simp
  then obtain r where "placeOrders srt s1 subs = Inr r" using Cons.IH by blast
  with one show ?case unfolding sub by (cases r) auto
qed

lemma placeOrders_ids:
  "placeOrders srt s subs = Inr (ids, ts, s') \<Longrightarrow>
     ids = map (\<lambda>k. orderIdCounter s + int k) [0..<length subs]"
proof (induction subs arbitrary: s ids ts)
  case Nil
  then show ?case by simp
next
  case (Cons sub subs)
  obtain b p q where sub: "sub = (b, p, q)" by (cases sub)
  from Cons.prems obtain i t1 s1 ids' t2
    where one: "placeOrder srt s b p q = Inr (i, t1, s1)"
      and rest: "placeOrders srt s1 subs = Inr (ids', t2, s')"
      and ids: "ids = i # ids'"
    unfolding sub placeOrders_Cons_Inr by blast
  from one have i: "i = orderIdCounter s" by (simp add: placeOrder_Inr)
  from rest have "ids' = map (\<lambda>k. orderIdCounter s1 + int k) [0..<length subs]"
    by (rule Cons.IH)
  also have "\<dots> = map (\<lambda>k. orderIdCounter s + int k) (map Suc [0..<length subs])"
    using placeOrder_counter [OF one] by simp
  finally show ?case
    unfolding ids i by (simp add: upt_conv_Cons map_Suc_upt del: upt_Suc)
qed

lemma placeOrders_ids_sorted:
  assumes "placeOrders srt s subs = Inr (ids, ts, s')"
  shows "ids = map (\<lambda>k. orderIdCounter s + int k) [0..<length subs] \<and>
         sorted_wrt (<) ids \<and> distinct ids"
proof -
  from assms have ids: "ids = map (\<lambda>k. orderIdCounter s + int k) [0..<length subs]"
    by (rule placeOrders_ids)
  have "sorted_wrt (\<lambda>i j. orderIdCounter s + int i < orderIdCounter s + int j) [0..<length subs]"
    by (rule sorted_wrt_mono_rel [OF _ sorted_wrt_upt]) simp
  then have inc: "sorted_wrt (<) ids" unfolding ids by (simp add: sorted_wrt_map)
  have "inj_on (\<lambda>k. orderIdCounter s + int k) (set [0..<length subs])"
    by (simp add: inj_on_def)
  then have "distinct ids" unfolding ids by (simp add: distinct_map)
  with inc ids show ?thesis by simp
qed

subsection \<open>Price order\<close>

lemma insertOrder_sorted:
  assumes "std_sort srt" and "bidsSorted (buyOrders s)" and "asksSorted (sellOrders s)"
  shows "bidsSorted (buyOrders (insertOrder srt s b p q))"
    and "asksSorted (sellOrders (insertOrder srt s b p q))"
  using assms
  by (auto simp: insertOrder_def Let_def std_sort_buyCmp(2) std_sort_sellCmp(2))

lemma matchOrders_bidsSorted:
  "bidsSorted (buyOrders s) \<Longrightarrow> bidsSorted (buyOrders (snd (matchOrders s)))"
  unfolding bidsSorted_def by (rule matchOrders_sorted_wrt_buy) simp

lemma matchOrders_asksSorted:
  "asksSorted (sellOrders s) \<Longrightarrow> asksSorted (sellOrders (snd (matchOrders s)))"
  unfolding asksSorted_def by (rule matchOrders_sorted_wrt_sell) simp

lemma placeOrder_sorted:
  assumes "std_sort srt" and "bidsSorted (buyOrders s) \<and> asksSorted (sellOrders s)"
    and "placeOrder srt s b p q = Inr (i, ts, s')"
  shows "bidsSorted (buyOrders s') \<and> asksSorted (sellOrders s')"
proof -
  from assms(3) have s': "s' = snd (matchOrders (insertOrder srt s b p q))"
    by (simp add: placeOrder_Inr)
  from assms(1,2) show ?thesis
    unfolding s'
    by (simp add: matchOrders_bidsSorted matchOrders_asksSorted insertOrder_sorted)
qed

lemma placeOrders_keep_sorted:
  assumes "std_sort srt" and "bidsSorted (buyOrders s) \<and> asksSorted (sellOrders s)"
    and "placeOrders srt s subs = Inr (ids, ts, s')"
  shows "bidsSorted (buyOrders s') \<and> asksSorted (sellOrders s')"
  by (rule placeOrders_invariant
        [where I = "\<lambda>s. bidsSorted (buyOrders s) \<and> asksSorted (sellOrders s)",
         OF placeOrder_sorted [OF assms(1)] assms(2,3)])

subsection \<open>Arrival order within a price\<close>

lemma fifo_iff_filter:
  "fifo xs \<longleftrightarrow>
     (\<forall>p. sorted_wrt (\<lambda>x y. order_id x < order_id y) (filter (\<lambda>x. price x = p) xs))"
  by (induction xs) (auto simp: fifo_def)

lemma stable_filter_price:
  assumes "std_stable_sort srt"
  shows "filter (\<lambda>x. price x = p) (srt buyCmp xs) = filter (\<lambda>x. price x = p) xs"
    and "filter (\<lambda>x. price x = p) (srt sellCmp xs) = filter (\<lambda>x. price x = p) xs"
proof -
  let ?k = "\<lparr>order_id = 0, isBuy = True, price = p, quantity = 0\<rparr>"
  have eb: "(\<lambda>x. \<not> buyCmp x ?k \<and> \<not> buyCmp ?k x) = (\<lambda>x. price x = p)"
    by (auto simp: buyCmp_def fun_eq_iff)
  have es: "(\<lambda>x. \<not> sellCmp x ?k \<and> \<not> sellCmp ?k x) = (\<lambda>x. price x = p)"
    by (auto simp: sellCmp_def fun_eq_iff)
  from assms strict_weak_order_buyCmp
  have "filter (\<lambda>x. \<not> buyCmp x ?k \<and> \<not> buyCmp ?k x) (srt buyCmp xs) =
        filter (\<lambda>x. \<not> buyCmp x ?k \<and> \<not> buyCmp ?k x) xs"
    unfolding std_stable_sort_def by blast
  then show "filter (\<lambda>x. price x = p) (srt buyCmp xs) = filter (\<lambda>x. price x = p) xs"
    unfolding eb .
  from assms strict_weak_order_sellCmp
  have "filter (\<lambda>x. \<not> sellCmp x ?k \<and> \<not> sellCmp ?k x) (srt sellCmp xs) =
        filter (\<lambda>x. \<not> sellCmp x ?k \<and> \<not> sellCmp ?k x) xs"
    unfolding std_stable_sort_def by blast
  then show "filter (\<lambda>x. price x = p) (srt sellCmp xs) = filter (\<lambda>x. price x = p) xs"
    unfolding es .
qed

lemma fifo_append_new:
  assumes "fifo xs" and "\<forall>x \<in> set xs. order_id x < order_id y"
  shows "fifo (xs @ [y])"
  using assms by (auto simp: fifo_def sorted_wrt_append)

lemma stable_sort_fifo:
  assumes "std_stable_sort srt" and "fifo xs"
  shows "fifo (srt buyCmp xs)" and "fifo (srt sellCmp xs)"
  using assms by (simp_all add: fifo_iff_filter stable_filter_price)

lemma std_sort_set:
  assumes "std_sort srt"
  shows "set (srt buyCmp xs) = set xs" and "set (srt sellCmp xs) = set xs"
  using std_sort_buyCmp(1) [OF assms, of xs] std_sort_sellCmp(1) [OF assms, of xs]
  by (auto dest: mset_eq_setD)

lemma insertOrder_idsBelow:
  assumes "std_sort srt" and "idsBelow s"
  shows "idsBelow (insertOrder srt s b p q)"
proof -
  from assms(2) have "\<And>x. x \<in> set (buyOrders s) \<Longrightarrow> order_id x \<le> orderIdCounter s"
    and "\<And>x. x \<in> set (sellOrders s) \<Longrightarrow> order_id x \<le> orderIdCounter s"
    by (simp_all add: idsBelow_def list_all_iff less_imp_le)
  with assms(1) show ?thesis
    by (auto simp: idsBelow_def insertOrder_def Let_def list_all_iff std_sort_set)
qed

lemma insertOrder_fifo:
  assumes "std_stable_sort srt" and "idsBelow s"
    and "fifo (buyOrders s)" and "fifo (sellOrders s)"
  shows "fifo (buyOrders (insertOrder srt s b p q))"
    and "fifo (sellOrders (insertOrder srt s b p q))"
proof -
  let ?o = "\<lparr>order_id = orderIdCounter s, isBuy = b, price = p, quantity = q\<rparr>"
  from assms(2) have "\<forall>x \<in> set (buyOrders s). order_id x < order_id ?o"
    and "\<forall>x \<in> set (sellOrders s). order_id x < order_id ?o"
    by (auto simp: idsBelow_def list_all_iff)
  with assms(3,4) have "fifo (buyOrders s @ [?o])" and "fifo (sellOrders s @ [?o])"
    by (simp_all add: fifo_append_new)
  with assms(1) have "fifo (srt buyCmp (buyOrders s @ [?o]))"
    and "fifo (srt sellCmp (sellOrders s @ [?o]))"
    by (simp_all add: stable_sort_fifo)
  with assms(3,4) show "fifo (buyOrders (insertOrder srt s b p q))"
    and "fifo (sellOrders (insertOrder srt s b p q))"
    by (cases b; simp add: insertOrder_def Let_def)+
qed

lemma matchOrders_fifo:
  "fifo (buyOrders s) \<Longrightarrow> fifo (buyOrders (snd (matchOrders s)))"
  "fifo (sellOrders s) \<Longrightarrow> fifo (sellOrders (snd (matchOrders s)))"
  unfolding fifo_def
  by (rule matchOrders_sorted_wrt_buy, simp, assumption)
     (rule matchOrders_sorted_wrt_sell, simp, assumption)

lemma placeOrder_fifo:
  assumes "std_stable_sort srt"
    and "idsBelow s \<and> fifo (buyOrders s) \<and> fifo (sellOrders s)"
    and "placeOrder srt s b p q = Inr (i, ts, s')"
  shows "idsBelow s' \<and> fifo (buyOrders s') \<and> fifo (sellOrders s')"
proof -
  from assms(3) have s': "s' = snd (matchOrders (insertOrder srt s b p q))"
    by (simp add: placeOrder_Inr)
  from assms(1) have "std_sort srt" by (simp add: std_stable_sort_def)
  with assms(1,2) show ?thesis
    unfolding s'
    by (simp add: matchOrders_fifo matchOrders_idsBelow insertOrder_fifo insertOrder_idsBelow)
qed

lemma placeOrders_keep_fifo:
  assumes "std_stable_sort srt"
    and "idsBelow s \<and> fifo (buyOrders s) \<and> fifo (sellOrders s)"
    and "placeOrders srt s subs = Inr (ids, ts, s')"
  shows "idsBelow s' \<and> fifo (buyOrders s') \<and> fifo (sellOrders s')"
  by (rule placeOrders_invariant
        [where I = "\<lambda>s. idsBelow s \<and> fifo (buyOrders s) \<and> fifo (sellOrders s)",
         OF placeOrder_fifo [OF assms(1)] assms(2,3)])

subsection \<open>The passes of one run of the loop\<close>

lemma matchOrders_Nil_iff: "fst (matchOrders s) = [] \<longleftrightarrow> matchStep s = None"
proof (cases "matchStep s")
  case None
  then show ?thesis by (simp add: matchOrders_None)
next
  case (Some r)
  obtain t s' where "r = (t, s')" by (cases r)
  with Some show ?thesis by (simp add: matchOrders_Some)
qed

lemma stateAfter_trade:
  "k < length (fst (matchOrders s)) \<Longrightarrow>
     matchStep (stateAfter k s) = Some (fst (matchOrders s) ! k, stateAfter (Suc k) s)"
proof (induction k arbitrary: s)
  case 0
  with matchOrders_Nil_iff [of s] have "matchStep s \<noteq> None" by auto
  then obtain t s' where st: "matchStep s = Some (t, s')" by auto
  then show ?case by (simp add: matchOrders_Some)
next
  case (Suc k)
  with matchOrders_Nil_iff [of s] have "matchStep s \<noteq> None" by auto
  then obtain t s' where st: "matchStep s = Some (t, s')" by auto
  with Suc.prems have "k < length (fst (matchOrders s'))" by (simp add: matchOrders_Some)
  then have "matchStep (stateAfter k s') =
     Some (fst (matchOrders s') ! k, stateAfter (Suc k) s')" by (rule Suc.IH)
  with st show ?case by (simp add: matchOrders_Some)
qed

lemma stateAfter_final: "snd (matchOrders s) = stateAfter (length (fst (matchOrders s))) s"
  by (induction s rule: matchOrders_cases) (simp_all add: matchOrders_None matchOrders_Some)

lemma matchStep_fronts:
  assumes "matchStep s = Some (t, s')"
  shows "buyOrders s \<noteq> []" and "sellOrders s \<noteq> []"
    and "price (hd (sellOrders s)) \<le> price (hd (buyOrders s))"
    and "t = \<lparr>trade_quantity = min (quantity (hd (buyOrders s))) (quantity (hd (sellOrders s))),
              trade_price = price (hd (sellOrders s))\<rparr>"
    and "buyOrders s' =
       (if quantity (hd (buyOrders s)) -
             min (quantity (hd (buyOrders s))) (quantity (hd (sellOrders s))) = 0
        then tl (buyOrders s)
        else (hd (buyOrders s))
               \<lparr>quantity := quantity (hd (buyOrders s)) -
                  min (quantity (hd (buyOrders s))) (quantity (hd (sellOrders s)))\<rparr>
             # tl (buyOrders s))"
    and "sellOrders s' =
       (if quantity (hd (sellOrders s)) -
             min (quantity (hd (buyOrders s))) (quantity (hd (sellOrders s))) = 0
        then tl (sellOrders s)
        else (hd (sellOrders s))
               \<lparr>quantity := quantity (hd (sellOrders s)) -
                  min (quantity (hd (buyOrders s))) (quantity (hd (sellOrders s)))\<rparr>
             # tl (sellOrders s))"
  using assms by (auto simp: matchStep_def Let_def split: list.splits if_splits)

subsection \<open>Sorting one or two orders\<close>

lemma std_sort_single:
  assumes "std_sort srt"
  shows "srt buyCmp [x] = [x]" and "srt sellCmp [x] = [x]"
  using std_sort_buyCmp(1) [OF assms, of "[x]"] std_sort_sellCmp(1) [OF assms, of "[x]"]
  by simp_all

lemma mset_pair:
  assumes "mset zs = {#x, y#}"
  shows "zs = [x, y] \<or> zs = [y, x]"
proof -
  from assms have "length zs = length [x, y]" by (metis mset.simps mset_eq_length)
  then obtain a b where zs: "zs = [a, b]"
    by (cases zs; cases "tl zs"; cases "tl (tl zs)") auto
  with assms show ?thesis by (auto simp: add_eq_conv_ex)
qed

lemma std_sort_pair:
  assumes "std_sort srt"
  shows "price x > price y \<Longrightarrow> srt buyCmp [x, y] = [x, y]"
    and "price x < price y \<Longrightarrow> srt sellCmp [x, y] = [x, y]"
proof -
  assume "price x > price y"
  with std_sort_buyCmp [OF assms, of "[x, y]"] mset_pair [of "srt buyCmp [x, y]" x y]
  show "srt buyCmp [x, y] = [x, y]" by (auto simp: bidsSorted_def)
next
  assume "price x < price y"
  with std_sort_sellCmp [OF assms, of "[x, y]"] mset_pair [of "srt sellCmp [x, y]" x y]
  show "srt sellCmp [x, y] = [x, y]" by (auto simp: asksSorted_def)
qed

lemma totalQuantity_mset: "mset xs = mset ys \<Longrightarrow> totalQuantity xs = totalQuantity ys"
  unfolding totalQuantity_def
  by (metis mset_map sum_mset_sum_list)

lemma insertOrder_totalQuantity:
  assumes "std_sort srt"
  shows "totalQuantity (buyOrders (insertOrder srt s b p q)) =
           totalQuantity (buyOrders s) + (if b then q else 0)"
    and "totalQuantity (sellOrders (insertOrder srt s b p q)) =
           totalQuantity (sellOrders s) + (if b then 0 else q)"
proof -
  let ?o = "\<lparr>order_id = orderIdCounter s, isBuy = b, price = p, quantity = q\<rparr>"
  from assms have "totalQuantity (srt buyCmp (buyOrders s @ [?o])) = totalQuantity (buyOrders s @ [?o])"
    and "totalQuantity (srt sellCmp (sellOrders s @ [?o])) = totalQuantity (sellOrders s @ [?o])"
    by (simp_all add: totalQuantity_mset std_sort_buyCmp(1) std_sort_sellCmp(1))
  then show "totalQuantity (buyOrders (insertOrder srt s b p q)) =
           totalQuantity (buyOrders s) + (if b then q else 0)"
    and "totalQuantity (sellOrders (insertOrder srt s b p q)) =
           totalQuantity (sellOrders s) + (if b then 0 else q)"
    by (cases b; simp add: insertOrder_def Let_def totalQuantity_def)+
qed

text \<open>
  On a new simulator, valid submissions keep every resting quantity strictly positive
  and at most \<open>INT_MAX\<close>: the books on which the loop body cannot overflow.
\<close>

lemma insertOrder_quantities:
  assumes "std_sort srt" and "allPositive s \<and> inRange s" and "valid_submission (b, p, q)"
  shows "allPositive (insertOrder srt s b p q) \<and> inRange (insertOrder srt s b p q)"
  using assms
  by (auto simp: allPositive_def inRange_def insertOrder_def Let_def list_all_iff
      std_sort_set valid_submission_def)

lemma placeOrders_valid_quantities:
  assumes "std_sort srt"
  shows "list_all valid_submission subs \<Longrightarrow> allPositive s \<and> inRange s \<Longrightarrow>
     placeOrders srt s subs = Inr (ids, ts, s') \<Longrightarrow> allPositive s' \<and> inRange s'"
proof (induction subs arbitrary: s ids ts)
  case Nil
  then show ?case by simp
next
  case (Cons sub subs)
  obtain b p q where sub: "sub = (b, p, q)" by (cases sub)
  from Cons.prems(3) obtain i t1 s1 ids' t2
    where one: "placeOrder srt s b p q = Inr (i, t1, s1)"
      and rest: "placeOrders srt s1 subs = Inr (ids', t2, s')"
    unfolding sub placeOrders_Cons_Inr by blast
  from one have s1: "s1 = snd (matchOrders (insertOrder srt s b p q))"
    by (simp add: placeOrder_Inr)
  from Cons.prems(1) have "valid_submission (b, p, q)" by (simp add: sub)
  with assms Cons.prems(2)
  have "allPositive (insertOrder srt s b p q) \<and> inRange (insertOrder srt s b p q)"
    by (rule insertOrder_quantities)
  then have q1: "allPositive s1 \<and> inRange s1"
    unfolding s1 by (simp add: matchOrders_allPositive matchOrders_inRange)
  from Cons.prems(1) have "list_all valid_submission subs" by simp
  then show ?case using q1 rest by (rule Cons.IH)
qed

subsection \<open>libstdc++ on at most 16 orders\<close>

text \<open>
  On a vector of at most 16 elements the \<open>std::sort\<close> of libstdc++ is its insertion sort,
  which gives the result of \<open>insertion_sort\<close>.
\<close>

lemma insert_sorted_snoc:
  "c v y \<Longrightarrow> insert_sorted c v (pre @ [y]) = insert_sorted c v pre @ [y]"
  by (induction pre) auto

lemma insert_sorted_last:
  "\<forall>z \<in> set ys. \<not> c v z \<Longrightarrow> insert_sorted c v ys = ys @ [v]"
  by (induction ys) auto

lemma strict_weak_order_below:
  assumes "strict_weak_order c" and "c x z" and "\<not> c y z"
  shows "c x y"
proof (rule ccontr)
  assume n: "\<not> c x y"
  from assms(1) have tr: "\<And>u v w. c u v \<Longrightarrow> c v w \<Longrightarrow> c u w"
    and eq: "\<And>u v w. \<not> c u v \<Longrightarrow> \<not> c v u \<Longrightarrow> \<not> c v w \<Longrightarrow> \<not> c w v \<Longrightarrow> \<not> c u w \<and> \<not> c w u"
    unfolding strict_weak_order_def by blast+
  show False
  proof (cases "c y x")
    case True
    from this assms(2) have "c y z" by (rule tr)
    with assms(3) show False by simp
  next
    case False
    have "\<not> c z y"
    proof
      assume "c z y"
      with assms(2) have "c x y" by (rule tr)
      with n show False by simp
    qed
    with n False assms(3) eq [of x y z] have "\<not> c x z" by blast
    with assms(2) show False by simp
  qed
qed

lemma unguarded_linear_insert_sorted:
  assumes swo: "strict_weak_order c"
  shows "sorted_wrt (\<lambda>a b. \<not> c b a) pre \<Longrightarrow>
     unguarded_linear_insert c v (pre @ h # post) (length pre) = insert_sorted c v pre @ post"
proof (induction pre arbitrary: h post rule: rev_induct)
  case Nil
  then show ?case by simp
next
  case (snoc y pre)
  from snoc.prems have sp: "sorted_wrt (\<lambda>a b. \<not> c b a) pre"
    and below: "\<forall>z \<in> set pre. \<not> c y z"
    by (auto simp: sorted_wrt_append)
  have nth: "(pre @ y # h # post) ! length pre = y" by (simp add: nth_append)
  show ?case
  proof (cases "c v y")
    case True
    have upd: "(pre @ y # h # post)[Suc (length pre) := y] = pre @ y # y # post"
      by (simp add: list_update_append)
    from snoc.IH [OF sp, of y "y # post"] True show ?thesis
      by (simp add: nth upd insert_sorted_snoc)
  next
    case False
    have "\<not> c v z" if "z \<in> set pre" for z
    proof
      assume "c v z"
      with swo have "c v y" using below that by (blast intro: strict_weak_order_below)
      with False show False by simp
    qed
    with False have "insert_sorted c v (pre @ [y]) = (pre @ [y]) @ [v]"
      by (intro insert_sorted_last) auto
    moreover have "(pre @ y # h # post)[Suc (length pre) := v] = pre @ y # v # post"
      by (simp add: list_update_append)
    ultimately show ?thesis using False by (simp add: nth)
  qed
qed

lemma insertion_step_sorted:
  assumes swo: "strict_weak_order c" and i: "0 < i" "i < length xs"
    and srt: "sorted_wrt (\<lambda>a b. \<not> c b a) (take i xs)"
  shows "insertion_step c xs i = insert_sorted c (xs ! i) (take i xs) @ drop (Suc i) xs"
proof (cases "c (xs ! i) (xs ! 0)")
  case True
  from i obtain x0 rest where t: "take i xs = x0 # rest" and x0: "x0 = xs ! 0"
    by (cases xs; cases i) auto
  with True show ?thesis by (simp add: insertion_step_def)
next
  case False
  from i have xs: "xs = take i xs @ xs ! i # drop (Suc i) xs" by (simp add: id_take_nth_drop)
  from i have len: "length (take i xs) = i" by simp
  from unguarded_linear_insert_sorted [OF swo srt, of "xs ! i" "xs ! i" "drop (Suc i) xs"]
  have "unguarded_linear_insert c (xs ! i) xs i =
          insert_sorted c (xs ! i) (take i xs) @ drop (Suc i) xs"
    unfolding len using xs by simp
  with False show ?thesis by (simp add: insertion_step_def)
qed

lemma insertion_sort_snoc: "insertion_sort c (xs @ [x]) = insert_sorted c x (insertion_sort c xs)"
  by (simp add: insertion_sort_def)

lemma length_insertion_sort: "length (insertion_sort c xs) = length xs"
  using mset_insertion_fold [of c "[]" xs]
  by (metis insertion_sort_def mset_eq_length add.left_neutral mset.simps(1))

lemma sorted_insertion_sort:
  "strict_weak_order c \<Longrightarrow> sorted_wrt (\<lambda>a b. \<not> c b a) (insertion_sort c xs)"
  by (simp add: insertion_sort_def sorted_insertion_fold)

lemma libstdcxx_insertion_sort_eq:
  assumes swo: "strict_weak_order c"
  shows "n \<le> length xs \<Longrightarrow>
     libstdcxx_insertion_sort c xs n = insertion_sort c (take n xs) @ drop n xs"
proof (induction n)
  case 0
  then show ?case by (simp add: libstdcxx_insertion_sort_def insertion_sort_def)
next
  case (Suc n)
  show ?case
  proof (cases "n = 0")
    case True
    with Suc.prems show ?thesis
      by (cases xs) (simp_all add: libstdcxx_insertion_sort_def insertion_sort_def)
  next
    case False
    let ?ys = "libstdcxx_insertion_sort c xs n"
    from Suc have ys: "?ys = insertion_sort c (take n xs) @ drop n xs" by simp
    from Suc.prems have n: "n < length xs" by simp
    have len: "length (insertion_sort c (take n xs)) = n"
      using n by (simp add: length_insertion_sort)
    have tk: "take n ?ys = insertion_sort c (take n xs)" unfolding ys using len by simp
    have nth: "?ys ! n = xs ! n" unfolding ys using len n by (simp add: nth_append)
    have dr: "drop (Suc n) ?ys = drop (Suc n) xs" unfolding ys using len n by simp
    have ly: "length ?ys = length xs" unfolding ys using len n by simp
    have "libstdcxx_insertion_sort c xs (Suc n) = insertion_step c ?ys n"
      using False by (simp add: libstdcxx_insertion_sort_def)
    also have "\<dots> = insert_sorted c (?ys ! n) (take n ?ys) @ drop (Suc n) ?ys"
      using False n ly by (intro insertion_step_sorted [OF swo]) (simp_all add: tk sorted_insertion_sort swo)
    also have "\<dots> = insertion_sort c (take (Suc n) xs) @ drop (Suc n) xs"
      using n by (simp add: tk nth dr take_Suc_conv_app_nth insertion_sort_snoc)
    finally show ?thesis .
  qed
qed

lemma introsort_loop_small: "lst - first \<le> 16 \<Longrightarrow> introsort_loop c xs first lst d = xs"
  by (cases d) simp_all

lemma libstdcxx_sort_small:
  assumes "strict_weak_order c" and "length xs \<le> 16"
  shows "libstdcxx_sort c xs = insertion_sort c xs"
  using assms libstdcxx_insertion_sort_eq [OF assms(1), of "length xs" xs]
  by (simp add: libstdcxx_sort_def introsort_loop_small final_insertion_sort_def insertion_sort_def)

lemma insertOrder_libstdcxx_small:
  assumes "length (if b then buyOrders s else sellOrders s) < 16"
  shows "insertOrder libstdcxx_sort s b p q = insertOrder insertion_sort s b p q"
proof -
  let ?o = "\<lparr>order_id = orderIdCounter s, isBuy = b, price = p, quantity = q\<rparr>"
  have "libstdcxx_sort buyCmp (buyOrders s @ [?o]) = insertion_sort buyCmp (buyOrders s @ [?o])"
    if "b"
    using that assms by (intro libstdcxx_sort_small strict_weak_order_buyCmp) simp
  moreover
  have "libstdcxx_sort sellCmp (sellOrders s @ [?o]) = insertion_sort sellCmp (sellOrders s @ [?o])"
    if "\<not> b"
    using that assms by (intro libstdcxx_sort_small strict_weak_order_sellCmp) simp
  ultimately show ?thesis by (cases b) (simp_all add: insertOrder_def Let_def)
qed

lemma placeOrder_libstdcxx_small:
  assumes "length (if b then buyOrders s else sellOrders s) < 16"
  shows "placeOrder libstdcxx_sort s b p q = placeOrder insertion_sort s b p q"
  by (simp add: placeOrder_def insertOrder_libstdcxx_small [OF assms])

lemma placeOrders_libstdcxx_small:
  "sortsAtMost 16 libstdcxx_sort s subs \<Longrightarrow>
     placeOrders libstdcxx_sort s subs = placeOrders insertion_sort s subs"
proof (induction subs arbitrary: s)
  case Nil
  then show ?case by simp
next
  case (Cons sub subs)
  obtain b p q where sub: "sub = (b, p, q)" by (cases sub)
  from Cons.prems have small: "length (if b then buyOrders s else sellOrders s) < 16"
    and rest: "\<And>i ts s'. placeOrder libstdcxx_sort s b p q = Inr (i, ts, s') \<Longrightarrow>
                 sortsAtMost 16 libstdcxx_sort s' subs"
    by (auto simp: sub)
  note one = placeOrder_libstdcxx_small [OF small, of p q]
  show ?case
  proof (cases "placeOrder libstdcxx_sort s b p q")
    case (Inl e)
    with one have "placeOrder insertion_sort s b p q = Inl e" by simp
    with Inl show ?thesis by (simp add: sub)
  next
    case (Inr r)
    obtain i ts s' where r: "r = (i, ts, s')" by (cases r)
    from rest [OF Inr [unfolded r]] have "placeOrders libstdcxx_sort s' subs = placeOrders insertion_sort s' subs"
      by (rule Cons.IH)
    moreover from Inr one have "placeOrder insertion_sort s b p q = Inr r" by simp
    ultimately show ?thesis using Inr by (simp add: sub r)
  qed
qed

lemma matchOrders_lengths:
  "length (buyOrders (snd (matchOrders s))) + length (sellOrders (snd (matchOrders s)))
     \<le> length (buyOrders s) + length (sellOrders s)"
proof (induction s rule: matchOrders_cases)
  case (exit s)
  then show ?case by (simp add: matchOrders_None)
next
  case (pass s t s')
  with matchStep_shrinks [OF pass(1)] show ?case by (simp add: matchOrders_Some)
qed

lemma insertOrder_lengths:
  "length (buyOrders (insertOrder insertion_sort s b p q)) +
   length (sellOrders (insertOrder insertion_sort s b p q)) =
     Suc (length (buyOrders s) + length (sellOrders s))"
  by (simp add: insertOrder_def Let_def length_insertion_sort)

lemma short_run_sortsAtMost:
  "length (buyOrders s) + length (sellOrders s) + length subs \<le> 16 \<Longrightarrow>
     sortsAtMost 16 libstdcxx_sort s subs"
proof (induction subs arbitrary: s)
  case Nil
  then show ?case by simp
next
  case (Cons sub subs)
  obtain b p q where sub: "sub = (b, p, q)" by (cases sub)
  from Cons.prems have small: "length (if b then buyOrders s else sellOrders s) < 16"
    by auto
  have "sortsAtMost 16 libstdcxx_sort s' subs"
    if run: "placeOrder libstdcxx_sort s b p q = Inr (i, ts, s')" for i ts s'
  proof -
    from run have "placeOrder insertion_sort s b p q = Inr (i, ts, s')"
      by (simp add: placeOrder_libstdcxx_small [OF small])
    then have s': "s' = snd (matchOrders (insertOrder insertion_sort s b p q))"
      by (simp add: placeOrder_Inr)
    from matchOrders_lengths [of "insertOrder insertion_sort s b p q"]
    have "length (buyOrders s') + length (sellOrders s') \<le>
            Suc (length (buyOrders s) + length (sellOrders s))"
      unfolding s' by (simp add: insertOrder_lengths)
    with Cons.prems show ?thesis by (intro Cons.IH) simp
  qed
  with small show ?case by (auto simp: sub split: sum.splits)
qed

subsection \<open>libstdc++ on larger vectors\<close>

text \<open>
  Two runs of the model beyond the insertion sort: a vector of 32 prices through the
  partitions of \<open>__introsort_loop\<close>, and the same vector at depth limit 0, through the heap
  sort of \<open>__partial_sort\<close>.
\<close>

lemma libstdcxx_sort_example:
  "libstdcxx_sort (<)
     [5, 3, 8, 1, 9, 2, 7, 3, 6, 4, 0, 11, 15, 12, 14, 13, 10, 22, 21, 20, 19, 18, 17, 16,
      30, 29, 28, 27, 26, 25, 24, 23 :: int] =
     [0, 1, 2, 3, 3, 4, 5, 6, 7, 8, 9, 10, 11, 12, 13, 14, 15, 16, 17, 18, 19, 20, 21, 22,
      23, 24, 25, 26, 27, 28, 29, 30]"
  by code_simp

lemma partial_sort_example:
  "introsort_loop (<)
     [5, 3, 8, 1, 9, 2, 7, 3, 6, 4, 0, 11, 15, 12, 14, 13, 10, 22, 21, 20, 19, 18, 17, 16,
      30, 29, 28, 27, 26, 25, 24, 23 :: int] 0 32 0 =
     [0, 1, 2, 3, 3, 4, 5, 6, 7, 8, 9, 10, 11, 12, 13, 14, 15, 16, 17, 18, 19, 20, 21, 22,
      23, 24, 25, 26, 27, 28, 29, 30]"
  by code_simp

subsection \<open>A run that overflows the counter\<close>

lemma placeOrders_append:
  "placeOrders srt s (xs @ ys) =
     (case placeOrders srt s xs of
        Inl e \<Rightarrow> Inl e
      | Inr (ids, ts, s') \<Rightarrow>
         (case placeOrders srt s' ys of
            Inl e \<Rightarrow> Inl e
          | Inr (ids', ts', s'') \<Rightarrow> Inr (ids @ ids', ts @ ts', s'')))"
proof (induction xs arbitrary: s)
  case Nil
  then show ?case by (simp split: sum.splits)
next
  case (Cons sub xs)
  obtain b p q where sub: "sub = (b, p, q)" by (cases sub)
  show ?case by (simp add: sub Cons.IH split: sum.splits prod.splits)
qed

lemma libstdcxx_sort_single:
  "libstdcxx_sort buyCmp [x] = [x]" "libstdcxx_sort sellCmp [x] = [x]"
  by (simp_all add: libstdcxx_sort_small strict_weak_order_buyCmp strict_weak_order_sellCmp
      insertion_sort_def)

lemma buy_sell_pair:
  assumes "c + 1 < INT_MAX"
  shows "placeOrders libstdcxx_sort \<lparr>buyOrders = [], sellOrders = [], orderIdCounter = c\<rparr>
           [(True, 1, 1), (False, 1, 1)] =
         Inr ([c, c + 1], [\<lparr>trade_quantity = 1, trade_price = 1\<rparr>],
              \<lparr>buyOrders = [], sellOrders = [], orderIdCounter = c + 2\<rparr>)"
  using assms
  by (simp add: placeOrder_def insertOrder_def Let_def matchOrders.simps matchStep_def
      libstdcxx_sort_single)

lemma buy_sell_pairs:
  "c + 2 * int k \<le> INT_MAX \<Longrightarrow>
     \<exists>ids ts. placeOrders libstdcxx_sort \<lparr>buyOrders = [], sellOrders = [], orderIdCounter = c\<rparr>
                 (concat (replicate k [(True, 1, 1), (False, 1, 1)])) =
               Inr (ids, ts, \<lparr>buyOrders = [], sellOrders = [], orderIdCounter = c + 2 * int k\<rparr>)"
proof (induction k arbitrary: c)
  case 0
  then show ?case by simp
next
  case (Suc k)
  from Suc.prems have c: "c + 1 < INT_MAX" and rest: "(c + 2) + 2 * int k \<le> INT_MAX" by simp_all
  from Suc.IH [OF rest] obtain ids ts
    where "placeOrders libstdcxx_sort \<lparr>buyOrders = [], sellOrders = [], orderIdCounter = c + 2\<rparr>
             (concat (replicate k [(True, 1, 1), (False, 1, 1)])) =
           Inr (ids, ts, \<lparr>buyOrders = [], sellOrders = [], orderIdCounter = c + 2 + 2 * int k\<rparr>)"
    by blast
  with buy_sell_pair [OF c]
  have "placeOrders libstdcxx_sort \<lparr>buyOrders = [], sellOrders = [], orderIdCounter = c\<rparr>
          ([(True, 1, 1), (False, 1, 1)] @ concat (replicate k [(True, 1, 1), (False, 1, 1)])) =
        Inr ([c, c + 1] @ ids, [\<lparr>trade_quantity = 1, trade_price = 1\<rparr>] @ ts,
             \<lparr>buyOrders = [], sellOrders = [], orderIdCounter = c + 2 + 2 * int k\<rparr>)"
    by (simp only: placeOrders_append sum.case prod.case)
  then show ?case by (auto simp: algebra_simps)
qed

lemma last_pairs_overflow:
  "placeOrders libstdcxx_sort \<lparr>buyOrders = [], sellOrders = [], orderIdCounter = 2147483646\<rparr>
     ([(True, 1, 1), (False, 1, 1)] @ [(True, 1, 1), (False, 1, 1)]) = Inl SignedOverflow"
  by (simp add: placeOrder_def insertOrder_def Let_def matchOrders.simps matchStep_def
      libstdcxx_sort_single INT_MAX_def)

lemma overflow_run_split:
  "overflow_run = concat (replicate 1073741823 [(True, 1, 1), (False, 1, 1)]) @
                  ([(True, 1, 1), (False, 1, 1)] @ [(True, 1, 1), (False, 1, 1)])"
proof -
  have "(1073741825 :: nat) = 1073741823 + Suc (Suc 0)" by simp
  then have "overflow_run =
      concat (replicate 1073741823 [(True, 1, 1), (False, 1, 1)] @
              replicate (Suc (Suc 0)) [(True, 1, 1), (False, 1, 1)])"
    unfolding overflow_run_def by (simp only: replicate_add)
  then show ?thesis by simp
qed

lemma overflow_run_overflows:
  "placeOrders libstdcxx_sort newExchangeSimulator overflow_run = Inl SignedOverflow"
proof -
  have "(0::int) + 2 * int 1073741823 \<le> INT_MAX" by (simp add: INT_MAX_def)
  from buy_sell_pairs [OF this] obtain ids ts
    where "placeOrders libstdcxx_sort newExchangeSimulator
             (concat (replicate 1073741823 [(True, 1, 1), (False, 1, 1)])) =
           Inr (ids, ts, \<lparr>buyOrders = [], sellOrders = [], orderIdCounter = 2147483646\<rparr>)"
    by (auto simp: newExchangeSimulator_def)
  with last_pairs_overflow show ?thesis
    by (simp only: overflow_run_split placeOrders_append [of _ _ "concat _"] sum.case prod.case)
qed

lemma overflow_run_valid: "list_all valid_submission overflow_run"
  by (auto simp: overflow_run_def list_all_iff valid_submission_def INT_MAX_def)

lemma overflow_run_length: "length overflow_run = 2147483650"
  by (simp add: overflow_run_def length_concat sum_list_replicate)

lemmas run_simps =
  placeOrder_def insertOrder_def insertion_sort_def newExchangeSimulator_def
  INT_MAX_def buyCmp_def sellCmp_def matchOrders.simps matchStep_def Let_def

section \<open>The claims\<close>

text \<open>
  C1. After every call of \<open>placeOrder\<close> that returns, the book does not cross: a side is
  empty, or the price of the front bid is strictly below the price of the front ask. It
  holds from any book and for any non-empty sequence of calls, valid or not, hence after
  each call of every sequence of valid submissions; it does not depend on the sorting
  routine.
\<close>

theorem placeOrders_nonCrossing:
  "placeOrders srt s subs = Inr (ids, ts, s') \<Longrightarrow> subs \<noteq> [] \<Longrightarrow> nonCrossing s'"
proof (induction subs arbitrary: s ids ts)
  case Nil
  then show ?case by simp
next
  case (Cons sub subs)
  obtain b p q where sub: "sub = (b, p, q)" by (cases sub)
  from Cons.prems(1) obtain i t1 s1 ids' t2
    where one: "placeOrder srt s b p q = Inr (i, t1, s1)"
      and rest: "placeOrders srt s1 subs = Inr (ids', t2, s')"
    unfolding sub placeOrders_Cons_Inr by blast
  show ?case
  proof (cases "subs = []")
    case True
    with rest one show ?thesis by (simp add: placeOrder_nonCrossing)
  next
    case False
    with rest show ?thesis by (rule Cons.IH)
  qed
qed

theorem placeOrders_nonCrossing_witness:
  "placeOrders insertion_sort newExchangeSimulator main_submissions =
     Inr ([0, 1, 2, 3], [\<lparr>trade_quantity = 75, trade_price = 100\<rparr>],
          \<lparr>buyOrders = [\<lparr>order_id = 0, isBuy = True, price = 100, quantity = 25\<rparr>,
                        \<lparr>order_id = 1, isBuy = True, price = 99, quantity = 50\<rparr>],
           sellOrders = [\<lparr>order_id = 3, isBuy = False, price = 101, quantity = 25\<rparr>],
           orderIdCounter = 4\<rparr>) \<and>
   main_submissions \<noteq> [] \<and>
   nonCrossing
     \<lparr>buyOrders = [\<lparr>order_id = 0, isBuy = True, price = 100, quantity = 25\<rparr>,
                   \<lparr>order_id = 1, isBuy = True, price = 99, quantity = 50\<rparr>],
      sellOrders = [\<lparr>order_id = 3, isBuy = False, price = 101, quantity = 25\<rparr>],
      orderIdCounter = 4\<rparr>"
proof -
  have run: "placeOrders insertion_sort newExchangeSimulator main_submissions =
     Inr ([0, 1, 2, 3], [\<lparr>trade_quantity = 75, trade_price = 100\<rparr>],
          \<lparr>buyOrders = [\<lparr>order_id = 0, isBuy = True, price = 100, quantity = 25\<rparr>,
                        \<lparr>order_id = 1, isBuy = True, price = 99, quantity = 50\<rparr>],
           sellOrders = [\<lparr>order_id = 3, isBuy = False, price = 101, quantity = 25\<rparr>],
           orderIdCounter = 4\<rparr>)"
    by (simp add: main_submissions_def run_simps)
  have ne: "main_submissions \<noteq> []" by (simp add: main_submissions_def)
  from placeOrders_nonCrossing [OF run ne] run ne show ?thesis by simp
qed

text \<open>
  C2. Trade number \<open>k\<close> of a call of \<open>placeOrder\<close>, for a buy or a sell order alike, is
  taken from the fronts of the two sides at the start of pass \<open>k\<close> of the loop: both
  sides are non-empty there, the quantity of the trade is the minimum of the two front
  quantities, its price is the price of the front ask, and in the next state each front
  has lost exactly that quantity (and is erased when nothing is left of it). The state
  after the last pass is the state the call leaves.
\<close>

theorem trade_from_fronts:
  "placeOrder srt s b p q = Inr (i, ts, s') \<Longrightarrow> k < length ts \<Longrightarrow>
     (let sk = stateAfter k (insertOrder srt s b p q);
          sk' = stateAfter (Suc k) (insertOrder srt s b p q);
          bid = hd (buyOrders sk);
          ask = hd (sellOrders sk);
          x = min (quantity bid) (quantity ask)
      in buyOrders sk \<noteq> [] \<and> sellOrders sk \<noteq> [] \<and>
         ts ! k = \<lparr>trade_quantity = x, trade_price = price ask\<rparr> \<and>
         buyOrders sk' =
           (if quantity bid - x = 0 then tl (buyOrders sk)
            else bid\<lparr>quantity := quantity bid - x\<rparr> # tl (buyOrders sk)) \<and>
         sellOrders sk' =
           (if quantity ask - x = 0 then tl (sellOrders sk)
            else ask\<lparr>quantity := quantity ask - x\<rparr> # tl (sellOrders sk))) \<and>
     s' = stateAfter (length ts) (insertOrder srt s b p q)"
proof -
  assume run: "placeOrder srt s b p q = Inr (i, ts, s')" and k: "k < length ts"
  let ?s2 = "insertOrder srt s b p q"
  from run have m: "matchOrders ?s2 = (ts, s')" by (simp add: placeOrder_Inr)
  with k have "k < length (fst (matchOrders ?s2))" by simp
  from stateAfter_trade [OF this] m
  have st: "matchStep (stateAfter k ?s2) = Some (ts ! k, stateAfter (Suc k) ?s2)" by simp
  from stateAfter_final [of ?s2] m have "s' = stateAfter (length ts) ?s2" by simp
  with matchStep_fronts [OF st] show ?thesis unfolding Let_def by blast
qed

theorem trade_from_fronts_witness:
  "placeOrder insertion_sort
     \<lparr>buyOrders = [],
      sellOrders = [\<lparr>order_id = 0, isBuy = False, price = 50, quantity = 5\<rparr>,
                    \<lparr>order_id = 1, isBuy = False, price = 55, quantity = 10\<rparr>],
      orderIdCounter = 2\<rparr> True 60 12 =
     Inr (2, [\<lparr>trade_quantity = 5, trade_price = 50\<rparr>, \<lparr>trade_quantity = 7, trade_price = 55\<rparr>],
          \<lparr>buyOrders = [],
           sellOrders = [\<lparr>order_id = 1, isBuy = False, price = 55, quantity = 3\<rparr>],
           orderIdCounter = 3\<rparr>) \<and>
   stateAfter 1 (insertOrder insertion_sort
     \<lparr>buyOrders = [],
      sellOrders = [\<lparr>order_id = 0, isBuy = False, price = 50, quantity = 5\<rparr>,
                    \<lparr>order_id = 1, isBuy = False, price = 55, quantity = 10\<rparr>],
      orderIdCounter = 2\<rparr> True 60 12) =
     \<lparr>buyOrders = [\<lparr>order_id = 2, isBuy = True, price = 60, quantity = 7\<rparr>],
      sellOrders = [\<lparr>order_id = 1, isBuy = False, price = 55, quantity = 10\<rparr>],
      orderIdCounter = 3\<rparr> \<and>
   [\<lparr>trade_quantity = 5, trade_price = 50\<rparr>, \<lparr>trade_quantity = 7, trade_price = 55\<rparr>] ! 1 =
     \<lparr>trade_quantity = min 7 10, trade_price = 55\<rparr> \<and>
   placeOrder insertion_sort
     \<lparr>buyOrders = [\<lparr>order_id = 0, isBuy = True, price = 60, quantity = 10\<rparr>],
      sellOrders = [], orderIdCounter = 1\<rparr> False 50 10 =
     Inr (1, [\<lparr>trade_quantity = 10, trade_price = 50\<rparr>],
          \<lparr>buyOrders = [], sellOrders = [], orderIdCounter = 2\<rparr>) \<and>
   placeOrders insertion_sort newExchangeSimulator [(False, 50, 10), (True, 60, 10)] =
     Inr ([0, 1], [\<lparr>trade_quantity = 10, trade_price = 50\<rparr>],
          \<lparr>buyOrders = [], sellOrders = [], orderIdCounter = 2\<rparr>)"
  (is "placeOrder insertion_sort ?S True 60 12 = Inr (2, ?ts, ?S') \<and> ?after \<and> ?trade \<and> ?sell \<and> ?buy")
proof -
  have run: "placeOrder insertion_sort ?S True 60 12 = Inr (2, ?ts, ?S')"
    by (simp add: run_simps)
  have k: "1 < length ?ts" by simp
  have after: ?after by (simp add: run_simps)
  from trade_from_fronts [OF run k, THEN conjunct1] after
  have ?trade by (simp add: Let_def)
  moreover have ?sell by (simp add: run_simps)
  moreover have ?buy by (simp add: run_simps)
  ultimately show ?thesis using run after by blast
qed

text \<open>
  C3. Each trade of a call of \<open>placeOrder\<close> takes its quantity from the total of the bids
  and the same quantity from the total of the asks; so over the whole call, counted from
  the book with the new order inserted, the total removed from the bids and the total
  removed from the asks are both the sum of the quantities of the trades.
\<close>

theorem quantity_conserved:
  "placeOrder srt s b p q = Inr (i, ts, s') \<Longrightarrow>
     (\<forall>k < length ts.
        totalQuantity (buyOrders (stateAfter k (insertOrder srt s b p q))) -
        totalQuantity (buyOrders (stateAfter (Suc k) (insertOrder srt s b p q))) =
          trade_quantity (ts ! k) \<and>
        totalQuantity (sellOrders (stateAfter k (insertOrder srt s b p q))) -
        totalQuantity (sellOrders (stateAfter (Suc k) (insertOrder srt s b p q))) =
          trade_quantity (ts ! k)) \<and>
     totalQuantity (buyOrders (insertOrder srt s b p q)) - totalQuantity (buyOrders s') =
       sum_list (map trade_quantity ts) \<and>
     totalQuantity (sellOrders (insertOrder srt s b p q)) - totalQuantity (sellOrders s') =
       sum_list (map trade_quantity ts)"
proof -
  assume run: "placeOrder srt s b p q = Inr (i, ts, s')"
  let ?s2 = "insertOrder srt s b p q"
  from run have m: "matchOrders ?s2 = (ts, s')" by (simp add: placeOrder_Inr)
  have each: "totalQuantity (buyOrders (stateAfter k ?s2)) -
        totalQuantity (buyOrders (stateAfter (Suc k) ?s2)) = trade_quantity (ts ! k) \<and>
      totalQuantity (sellOrders (stateAfter k ?s2)) -
        totalQuantity (sellOrders (stateAfter (Suc k) ?s2)) = trade_quantity (ts ! k)"
    if k: "k < length ts" for k
  proof -
    from k m have "k < length (fst (matchOrders ?s2))" by simp
    from stateAfter_trade [OF this] m
    have st: "matchStep (stateAfter k ?s2) = Some (ts ! k, stateAfter (Suc k) ?s2)" by simp
    from matchStep_totalQuantity [OF st] show ?thesis by simp
  qed
  from matchOrders_totalQuantity [of ?s2] m
  have "totalQuantity (buyOrders ?s2) - totalQuantity (buyOrders s') =
          sum_list (map trade_quantity ts)"
    and "totalQuantity (sellOrders ?s2) - totalQuantity (sellOrders s') =
          sum_list (map trade_quantity ts)"
    by simp_all
  with each show ?thesis by blast
qed

theorem quantity_conserved_witness:
  "placeOrder insertion_sort
     \<lparr>buyOrders = [\<lparr>order_id = 0, isBuy = True, price = 101, quantity = 40\<rparr>,
                   \<lparr>order_id = 1, isBuy = True, price = 100, quantity = 30\<rparr>,
                   \<lparr>order_id = 2, isBuy = True, price = 98, quantity = 20\<rparr>],
      sellOrders = [], orderIdCounter = 3\<rparr> False 99 60 =
     Inr (3, [\<lparr>trade_quantity = 40, trade_price = 99\<rparr>, \<lparr>trade_quantity = 20, trade_price = 99\<rparr>],
          \<lparr>buyOrders = [\<lparr>order_id = 1, isBuy = True, price = 100, quantity = 10\<rparr>,
                        \<lparr>order_id = 2, isBuy = True, price = 98, quantity = 20\<rparr>],
           sellOrders = [], orderIdCounter = 4\<rparr>) \<and>
   totalQuantity (buyOrders (insertOrder insertion_sort
     \<lparr>buyOrders = [\<lparr>order_id = 0, isBuy = True, price = 101, quantity = 40\<rparr>,
                   \<lparr>order_id = 1, isBuy = True, price = 100, quantity = 30\<rparr>,
                   \<lparr>order_id = 2, isBuy = True, price = 98, quantity = 20\<rparr>],
      sellOrders = [], orderIdCounter = 3\<rparr> False 99 60)) - 30 = 60 \<and>
   totalQuantity (sellOrders (insertOrder insertion_sort
     \<lparr>buyOrders = [\<lparr>order_id = 0, isBuy = True, price = 101, quantity = 40\<rparr>,
                   \<lparr>order_id = 1, isBuy = True, price = 100, quantity = 30\<rparr>,
                   \<lparr>order_id = 2, isBuy = True, price = 98, quantity = 20\<rparr>],
      sellOrders = [], orderIdCounter = 3\<rparr> False 99 60)) - 0 = 60"
  (is "placeOrder insertion_sort ?S False 99 60 = Inr (3, ?ts, ?S') \<and> _ \<and> _")
proof -
  have run: "placeOrder insertion_sort ?S False 99 60 = Inr (3, ?ts, ?S')"
    by (simp add: run_simps)
  from quantity_conserved [OF run, THEN conjunct2] run
  show ?thesis by (simp add: totalQuantity_def)
qed




text \<open>
  C5. After every call in a sequence of calls on a new simulator, valid or not, the bids
  are in non-increasing order of price and the asks in non-decreasing order of price,
  for every sorting routine that meets the contract of \<open>std::sort\<close>.
\<close>

theorem placeOrders_sorted:
  "std_sort srt \<Longrightarrow> placeOrders srt newExchangeSimulator subs = Inr (ids, ts, s') \<Longrightarrow>
     bidsSorted (buyOrders s') \<and> asksSorted (sellOrders s')"
  by (rule placeOrders_keep_sorted [of srt newExchangeSimulator])
     (simp_all add: newExchangeSimulator_def bidsSorted_def asksSorted_def)

theorem placeOrders_sorted_witness:
  "std_sort insertion_sort \<and>
   placeOrders insertion_sort newExchangeSimulator
     [(True, 99, 10), (True, 101, 10), (True, 100, 10), (False, 105, 5), (False, 103, 5)] =
     Inr ([0, 1, 2, 3, 4], [],
          \<lparr>buyOrders = [\<lparr>order_id = 1, isBuy = True, price = 101, quantity = 10\<rparr>,
                        \<lparr>order_id = 2, isBuy = True, price = 100, quantity = 10\<rparr>,
                        \<lparr>order_id = 0, isBuy = True, price = 99, quantity = 10\<rparr>],
           sellOrders = [\<lparr>order_id = 4, isBuy = False, price = 103, quantity = 5\<rparr>,
                         \<lparr>order_id = 3, isBuy = False, price = 105, quantity = 5\<rparr>],
           orderIdCounter = 5\<rparr>) \<and>
   bidsSorted [\<lparr>order_id = 1, isBuy = True, price = 101, quantity = 10\<rparr>,
               \<lparr>order_id = 2, isBuy = True, price = 100, quantity = 10\<rparr>,
               \<lparr>order_id = 0, isBuy = True, price = 99, quantity = 10\<rparr>] \<and>
   asksSorted [\<lparr>order_id = 4, isBuy = False, price = 103, quantity = 5\<rparr>,
               \<lparr>order_id = 3, isBuy = False, price = 105, quantity = 5\<rparr>]"
proof -
  have run: "placeOrders insertion_sort newExchangeSimulator
     [(True, 99, 10), (True, 101, 10), (True, 100, 10), (False, 105, 5), (False, 103, 5)] =
     Inr ([0, 1, 2, 3, 4], [],
          \<lparr>buyOrders = [\<lparr>order_id = 1, isBuy = True, price = 101, quantity = 10\<rparr>,
                        \<lparr>order_id = 2, isBuy = True, price = 100, quantity = 10\<rparr>,
                        \<lparr>order_id = 0, isBuy = True, price = 99, quantity = 10\<rparr>],
           sellOrders = [\<lparr>order_id = 4, isBuy = False, price = 103, quantity = 5\<rparr>,
                         \<lparr>order_id = 3, isBuy = False, price = 105, quantity = 5\<rparr>],
           orderIdCounter = 5\<rparr>)"
    by (simp add: run_simps)
  from placeOrders_sorted [OF std_sort_insertion_sort run] run std_sort_insertion_sort
  show ?thesis by simp
qed

text \<open>
  C6, as the claim states it, fails. Seventeen valid bids at price 100 on a new
  simulator: the first sixteen calls sort by insertion and keep the order of arrival;
  the seventeenth call sorts seventeen orders, \<open>__introsort_loop\<close> swaps the first order
  with the middle one and partitions the rest with swaps, and the book ends with id 8 in
  front, followed by ids 16 down to 9, id 0 and ids 7 down to 1.
\<close>

theorem fifo_fails_at_17_bids:
  "list_all valid_submission (replicate 17 (True, 100, 1)) \<and>
   placeOrders libstdcxx_sort newExchangeSimulator (replicate 17 (True, 100, 1)) =
     Inr ([0, 1, 2, 3, 4, 5, 6, 7, 8, 9, 10, 11, 12, 13, 14, 15, 16], [],
          \<lparr>buyOrders = map (\<lambda>i. \<lparr>order_id = i, isBuy = True, price = 100, quantity = 1\<rparr>)
                          [8, 16, 15, 14, 13, 12, 11, 10, 9, 0, 7, 6, 5, 4, 3, 2, 1],
           sellOrders = [], orderIdCounter = 17\<rparr>) \<and>
   \<not> fifo (map (\<lambda>i. \<lparr>order_id = i, isBuy = True, price = 100, quantity = 1\<rparr>)
             [8, 16, 15, 14, 13, 12, 11, 10, 9, 0, 7, 6, 5, 4, 3, 2, 1])"
proof (intro conjI)
  show "list_all valid_submission (replicate 17 (True, 100, 1))"
    by (simp add: list_all_iff valid_submission_def INT_MAX_def)
  show "placeOrders libstdcxx_sort newExchangeSimulator (replicate 17 (True, 100, 1)) =
     Inr ([0, 1, 2, 3, 4, 5, 6, 7, 8, 9, 10, 11, 12, 13, 14, 15, 16], [],
          \<lparr>buyOrders = map (\<lambda>i. \<lparr>order_id = i, isBuy = True, price = 100, quantity = 1\<rparr>)
                          [8, 16, 15, 14, 13, 12, 11, 10, 9, 0, 7, 6, 5, 4, 3, 2, 1],
           sellOrders = [], orderIdCounter = 17\<rparr>)"
    by code_simp
  show "\<not> fifo (map (\<lambda>i. \<lparr>order_id = i, isBuy = True, price = 100, quantity = 1\<rparr>)
             [8, 16, 15, 14, 13, 12, 11, 10, 9, 0, 7, 6, 5, 4, 3, 2, 1])"
    by (simp add: fifo_def)
qed

text \<open>
  C6, amended. With the \<open>std::sort\<close> of libstdc++, as long as every call sorts at most 16
  orders (the side that receives the order holds at most 15 before the call; so in
  every run of at most 16 calls on a new simulator), after every call of a run on a new
  simulator two resting orders of one side with equal price stand in the order of their
  ids; and the insertion into a side of at most 15 orders puts the new order behind all
  orders of that side that have its price: the orders of that price are those that were
  there, in their order, followed by the new one.
\<close>

theorem placeOrders_fifo_libstdcxx:
  "(sortsAtMost 16 libstdcxx_sort newExchangeSimulator subs \<longrightarrow>
    placeOrders libstdcxx_sort newExchangeSimulator subs = Inr (ids, ts, s') \<longrightarrow>
      fifo (buyOrders s') \<and> fifo (sellOrders s')) \<and>
   (length subs \<le> 16 \<longrightarrow> sortsAtMost 16 libstdcxx_sort newExchangeSimulator subs) \<and>
   (length ((if b then buyOrders else sellOrders) s) < 16 \<longrightarrow>
      filter (\<lambda>x. price x = p)
        ((if b then buyOrders else sellOrders) (insertOrder libstdcxx_sort s b p q)) =
      filter (\<lambda>x. price x = p) ((if b then buyOrders else sellOrders) s) @
        [\<lparr>order_id = orderIdCounter s, isBuy = b, price = p, quantity = q\<rparr>])"
proof (intro conjI impI)
  assume small: "sortsAtMost 16 libstdcxx_sort newExchangeSimulator subs"
    and run: "placeOrders libstdcxx_sort newExchangeSimulator subs = Inr (ids, ts, s')"
  from run have run': "placeOrders insertion_sort newExchangeSimulator subs = Inr (ids, ts, s')"
    by (simp add: placeOrders_libstdcxx_small [OF small])
  have "idsBelow newExchangeSimulator \<and> fifo (buyOrders newExchangeSimulator) \<and>
        fifo (sellOrders newExchangeSimulator)"
    by (simp add: newExchangeSimulator_def idsBelow_def fifo_def)
  from placeOrders_keep_fifo [OF std_stable_sort_insertion_sort this run']
  show "fifo (buyOrders s')" and "fifo (sellOrders s')" by simp_all
next
  assume "length subs \<le> 16"
  then show "sortsAtMost 16 libstdcxx_sort newExchangeSimulator subs"
    by (intro short_run_sortsAtMost) (simp add: newExchangeSimulator_def)
next
  assume small: "length ((if b then buyOrders else sellOrders) s) < 16"
  then have "length (if b then buyOrders s else sellOrders s) < 16" by (cases b) simp_all
  then have "insertOrder libstdcxx_sort s b p q = insertOrder insertion_sort s b p q"
    by (rule insertOrder_libstdcxx_small)
  then show "filter (\<lambda>x. price x = p)
        ((if b then buyOrders else sellOrders) (insertOrder libstdcxx_sort s b p q)) =
      filter (\<lambda>x. price x = p) ((if b then buyOrders else sellOrders) s) @
        [\<lparr>order_id = orderIdCounter s, isBuy = b, price = p, quantity = q\<rparr>]"
    by (simp add: insertOrder_def Let_def
        stable_filter_price [OF std_stable_sort_insertion_sort])
qed

theorem placeOrders_fifo_libstdcxx_witness:
  "sortsAtMost 16 libstdcxx_sort newExchangeSimulator
     [(True, 100, 10), (True, 101, 5), (True, 100, 20)] \<and>
   placeOrders libstdcxx_sort newExchangeSimulator
     [(True, 100, 10), (True, 101, 5), (True, 100, 20)] =
     Inr ([0, 1, 2], [],
          \<lparr>buyOrders = [\<lparr>order_id = 1, isBuy = True, price = 101, quantity = 5\<rparr>,
                        \<lparr>order_id = 0, isBuy = True, price = 100, quantity = 10\<rparr>,
                        \<lparr>order_id = 2, isBuy = True, price = 100, quantity = 20\<rparr>],
           sellOrders = [], orderIdCounter = 3\<rparr>) \<and>
   fifo [\<lparr>order_id = 1, isBuy = True, price = 101, quantity = 5\<rparr>,
         \<lparr>order_id = 0, isBuy = True, price = 100, quantity = 10\<rparr>,
         \<lparr>order_id = 2, isBuy = True, price = 100, quantity = 20\<rparr>] \<and>
   filter (\<lambda>x. price x = 100)
     (buyOrders (insertOrder libstdcxx_sort
        \<lparr>buyOrders = [\<lparr>order_id = 1, isBuy = True, price = 101, quantity = 5\<rparr>,
                      \<lparr>order_id = 0, isBuy = True, price = 100, quantity = 10\<rparr>],
         sellOrders = [], orderIdCounter = 2\<rparr> True 100 20)) =
     [\<lparr>order_id = 0, isBuy = True, price = 100, quantity = 10\<rparr>,
      \<lparr>order_id = 2, isBuy = True, price = 100, quantity = 20\<rparr>]"
  (is "?small \<and> ?run \<and> _ \<and> filter _ (buyOrders (insertOrder _ ?S _ _ _)) = _")
proof -
  note th = placeOrders_fifo_libstdcxx
  have len: "length [(True, 100, 10), (True, 101, 5), (True, 100 :: real, 20 :: int)] \<le> 16"
    by simp
  from th [THEN conjunct2, THEN conjunct1, THEN mp, OF len] have small: ?small .
  have run: ?run by code_simp
  from th [THEN conjunct1, THEN mp, OF small, THEN mp, OF run]
  have f: "fifo [\<lparr>order_id = 1, isBuy = True, price = 101, quantity = 5\<rparr>,
                 \<lparr>order_id = 0, isBuy = True, price = 100, quantity = 10\<rparr>,
                 \<lparr>order_id = 2, isBuy = True, price = 100, quantity = 20\<rparr>]"
    by simp
  from th [where p = 100 and b = True and s = ?S and q = 20, THEN conjunct2, THEN conjunct2]
  have "filter (\<lambda>x. price x = 100) (buyOrders (insertOrder libstdcxx_sort ?S True 100 20)) =
     [\<lparr>order_id = 0, isBuy = True, price = 100, quantity = 10\<rparr>,
      \<lparr>order_id = 2, isBuy = True, price = 100, quantity = 20\<rparr>]"
    by simp
  with small run f show ?thesis by simp
qed

text \<open>
  C7. The matching loop ends on every book whose resting orders all have a strictly
  positive quantity. Each pass that executes a trade leaves all quantities positive and
  strictly decreases the total resting quantity, which is never negative; so the loop
  bounded by one pass more than the total resting quantity reaches its exit, and its
  result is that of \<open>matchOrders\<close>.
\<close>

theorem matchOrders_terminates:
  "allPositive s \<Longrightarrow>
     (\<forall>t s'. matchStep s = Some (t, s') \<longrightarrow>
        allPositive s' \<and> 0 \<le> restingQuantity s' \<and> restingQuantity s' < restingQuantity s) \<and>
     matchLoop (Suc (nat (restingQuantity s))) s = Some (matchOrders s)"
proof (intro conjI allI impI)
  fix t s'
  assume pos: "allPositive s" and st: "matchStep s = Some (t, s')"
  from st pos show "allPositive s'" by (rule matchStep_allPositive(1))
  then show "0 \<le> restingQuantity s'" by (rule restingQuantity_nonneg)
  from st pos show "restingQuantity s' < restingQuantity s" by (rule matchStep_restingQuantity)
next
  assume pos: "allPositive s"
  from restingQuantity_nonneg [OF pos]
  have "restingQuantity s < int (Suc (nat (restingQuantity s)))" by simp
  with pos show "matchLoop (Suc (nat (restingQuantity s))) s = Some (matchOrders s)"
    by (rule matchLoop_enough)
qed

theorem matchOrders_terminates_witness:
  "allPositive
     \<lparr>buyOrders = [\<lparr>order_id = 0, isBuy = True, price = 100, quantity = 100\<rparr>,
                   \<lparr>order_id = 1, isBuy = True, price = 99, quantity = 50\<rparr>],
      sellOrders = [\<lparr>order_id = 2, isBuy = False, price = 100, quantity = 75\<rparr>],
      orderIdCounter = 3\<rparr> \<and>
   restingQuantity
     \<lparr>buyOrders = [\<lparr>order_id = 0, isBuy = True, price = 100, quantity = 25\<rparr>,
                   \<lparr>order_id = 1, isBuy = True, price = 99, quantity = 50\<rparr>],
      sellOrders = [], orderIdCounter = 3\<rparr>
   < restingQuantity
     \<lparr>buyOrders = [\<lparr>order_id = 0, isBuy = True, price = 100, quantity = 100\<rparr>,
                   \<lparr>order_id = 1, isBuy = True, price = 99, quantity = 50\<rparr>],
      sellOrders = [\<lparr>order_id = 2, isBuy = False, price = 100, quantity = 75\<rparr>],
      orderIdCounter = 3\<rparr> \<and>
   matchLoop 226
     \<lparr>buyOrders = [\<lparr>order_id = 0, isBuy = True, price = 100, quantity = 100\<rparr>,
                   \<lparr>order_id = 1, isBuy = True, price = 99, quantity = 50\<rparr>],
      sellOrders = [\<lparr>order_id = 2, isBuy = False, price = 100, quantity = 75\<rparr>],
      orderIdCounter = 3\<rparr>
   = Some ([\<lparr>trade_quantity = 75, trade_price = 100\<rparr>],
      \<lparr>buyOrders = [\<lparr>order_id = 0, isBuy = True, price = 100, quantity = 25\<rparr>,
                    \<lparr>order_id = 1, isBuy = True, price = 99, quantity = 50\<rparr>],
       sellOrders = [], orderIdCounter = 3\<rparr>)"
  (is "allPositive ?S \<and> restingQuantity ?S' < restingQuantity ?S \<and> matchLoop 226 ?S = Some ([?T], ?S')")
proof -
  have pos: "allPositive ?S" by (simp add: allPositive_def)
  have st: "matchStep ?S = Some (?T, ?S')" by (simp add: matchStep_def Let_def)
  have mo: "matchOrders ?S = ([?T], ?S')" by (simp add: run_simps)
  have rq: "Suc (nat (restingQuantity ?S)) = 226"
    by (simp add: restingQuantity_def totalQuantity_def)
  from matchOrders_terminates [OF pos] st mo rq pos show ?thesis by simp
qed

text \<open>
  C8, as the claim states it, fails. The counter is an \<open>int\<close>: in a run of valid
  submissions on a new simulator the call number \<open>2 ^ 31\<close> finds the counter at \<open>INT_MAX\<close>,
  and \<open>orderIdCounter++\<close> overflows. From that call on the run has no defined result; a
  program that wraps returns \<open>INT_MAX\<close> and then, for call number \<open>2 ^ 31 + 1\<close>,
  \<open>INT_MIN\<close>, below every id given before.
\<close>

theorem placeOrders_counter_overflow:
  "list_all valid_submission overflow_run \<and>
   length overflow_run = 2147483650 \<and>
   placeOrders libstdcxx_sort newExchangeSimulator overflow_run = Inl SignedOverflow"
  using overflow_run_valid overflow_run_length overflow_run_overflows by simp

text \<open>
  C8, amended. As long as the counter does not pass \<open>INT_MAX\<close>, the ids are unique and
  strictly increasing in call order: a sequence of calls of which the number, added to
  the value of the counter at its start, is at most \<open>INT_MAX\<close> (on a new simulator, at
  most \<open>2 ^ 31 - 1\<close> calls) returns, and call number \<open>k\<close> (from 0) returns the value of the
  counter at the start plus \<open>k\<close>, so that a later call returns a strictly greater id and
  no id is given twice.
\<close>

theorem placeOrders_ids_increasing_bounded:
  "orderIdCounter s + int (length subs) \<le> INT_MAX \<Longrightarrow>
     \<exists>ids ts s'. placeOrders srt s subs = Inr (ids, ts, s') \<and>
       ids = map (\<lambda>k. orderIdCounter s + int k) [0..<length subs] \<and>
       sorted_wrt (<) ids \<and> distinct ids"
proof -
  assume "orderIdCounter s + int (length subs) \<le> INT_MAX"
  from placeOrders_returns [OF this, of srt] obtain ids ts s'
    where run: "placeOrders srt s subs = Inr (ids, ts, s')"
    by (metis prod_cases3)
  from placeOrders_ids_sorted [OF run] run show ?thesis by blast
qed

theorem placeOrders_ids_increasing_bounded_witness:
  "orderIdCounter newExchangeSimulator + int (length main_submissions) \<le> INT_MAX \<and>
   placeOrders insertion_sort newExchangeSimulator main_submissions =
     Inr ([0, 1, 2, 3], [\<lparr>trade_quantity = 75, trade_price = 100\<rparr>],
          \<lparr>buyOrders = [\<lparr>order_id = 0, isBuy = True, price = 100, quantity = 25\<rparr>,
                        \<lparr>order_id = 1, isBuy = True, price = 99, quantity = 50\<rparr>],
           sellOrders = [\<lparr>order_id = 3, isBuy = False, price = 101, quantity = 25\<rparr>],
           orderIdCounter = 4\<rparr>) \<and>
   sorted_wrt (<) [0, 1, 2, 3 :: int] \<and> distinct [0, 1, 2, 3 :: int]"
proof -
  have bound: "orderIdCounter newExchangeSimulator + int (length main_submissions) \<le> INT_MAX"
    by (simp add: newExchangeSimulator_def main_submissions_def INT_MAX_def)
  have run: "placeOrders insertion_sort newExchangeSimulator main_submissions =
     Inr ([0, 1, 2, 3], [\<lparr>trade_quantity = 75, trade_price = 100\<rparr>],
          \<lparr>buyOrders = [\<lparr>order_id = 0, isBuy = True, price = 100, quantity = 25\<rparr>,
                        \<lparr>order_id = 1, isBuy = True, price = 99, quantity = 50\<rparr>],
           sellOrders = [\<lparr>order_id = 3, isBuy = False, price = 101, quantity = 25\<rparr>],
           orderIdCounter = 4\<rparr>)"
    by (simp add: main_submissions_def run_simps)
  from placeOrders_ids_increasing_bounded [OF bound, of insertion_sort] run
  have "sorted_wrt (<) [0, 1, 2, 3 :: int] \<and> distinct [0, 1, 2, 3 :: int]" by auto
  with bound run show ?thesis by blast
qed

text \<open>
  C9. The four calls of \<open>main\<close> on a new simulator, with any sorting routine that meets
  the contract of \<open>std::sort\<close>: the two buys print no trade; the sell of 75 at 100 prints
  the one trade, 75 units at 100, and leaves the bids 25 at 100 and 50 at 99 and no ask;
  the sell of 25 at 101 prints no trade and rests as the only ask.
\<close>

theorem main_example:
  "std_sort srt \<Longrightarrow>
     placeOrders srt newExchangeSimulator [(True, 100, 100), (True, 99, 50)] =
       Inr ([0, 1], [],
            \<lparr>buyOrders = [\<lparr>order_id = 0, isBuy = True, price = 100, quantity = 100\<rparr>,
                          \<lparr>order_id = 1, isBuy = True, price = 99, quantity = 50\<rparr>],
             sellOrders = [], orderIdCounter = 2\<rparr>) \<and>
     placeOrder srt
       \<lparr>buyOrders = [\<lparr>order_id = 0, isBuy = True, price = 100, quantity = 100\<rparr>,
                     \<lparr>order_id = 1, isBuy = True, price = 99, quantity = 50\<rparr>],
        sellOrders = [], orderIdCounter = 2\<rparr> False 100 75 =
       Inr (2, [\<lparr>trade_quantity = 75, trade_price = 100\<rparr>],
            \<lparr>buyOrders = [\<lparr>order_id = 0, isBuy = True, price = 100, quantity = 25\<rparr>,
                          \<lparr>order_id = 1, isBuy = True, price = 99, quantity = 50\<rparr>],
             sellOrders = [], orderIdCounter = 3\<rparr>) \<and>
     placeOrder srt
       \<lparr>buyOrders = [\<lparr>order_id = 0, isBuy = True, price = 100, quantity = 25\<rparr>,
                     \<lparr>order_id = 1, isBuy = True, price = 99, quantity = 50\<rparr>],
        sellOrders = [], orderIdCounter = 3\<rparr> False 101 25 =
       Inr (3, [],
            \<lparr>buyOrders = [\<lparr>order_id = 0, isBuy = True, price = 100, quantity = 25\<rparr>,
                          \<lparr>order_id = 1, isBuy = True, price = 99, quantity = 50\<rparr>],
             sellOrders = [\<lparr>order_id = 3, isBuy = False, price = 101, quantity = 25\<rparr>],
             orderIdCounter = 4\<rparr>) \<and>
     placeOrders srt newExchangeSimulator main_submissions =
       Inr ([0, 1, 2, 3], [\<lparr>trade_quantity = 75, trade_price = 100\<rparr>],
            \<lparr>buyOrders = [\<lparr>order_id = 0, isBuy = True, price = 100, quantity = 25\<rparr>,
                          \<lparr>order_id = 1, isBuy = True, price = 99, quantity = 50\<rparr>],
             sellOrders = [\<lparr>order_id = 3, isBuy = False, price = 101, quantity = 25\<rparr>],
             orderIdCounter = 4\<rparr>)"
  by (simp add: main_submissions_def placeOrder_def insertOrder_def newExchangeSimulator_def
      INT_MAX_def matchOrders.simps matchStep_def Let_def std_sort_single std_sort_pair)

theorem main_example_witness:
  "std_sort insertion_sort \<and>
   placeOrder insertion_sort
       \<lparr>buyOrders = [\<lparr>order_id = 0, isBuy = True, price = 100, quantity = 100\<rparr>,
                     \<lparr>order_id = 1, isBuy = True, price = 99, quantity = 50\<rparr>],
        sellOrders = [], orderIdCounter = 2\<rparr> False 100 75 =
       Inr (2, [\<lparr>trade_quantity = 75, trade_price = 100\<rparr>],
            \<lparr>buyOrders = [\<lparr>order_id = 0, isBuy = True, price = 100, quantity = 25\<rparr>,
                          \<lparr>order_id = 1, isBuy = True, price = 99, quantity = 50\<rparr>],
             sellOrders = [], orderIdCounter = 3\<rparr>) \<and>
   placeOrders insertion_sort newExchangeSimulator main_submissions =
       Inr ([0, 1, 2, 3], [\<lparr>trade_quantity = 75, trade_price = 100\<rparr>],
            \<lparr>buyOrders = [\<lparr>order_id = 0, isBuy = True, price = 100, quantity = 25\<rparr>,
                          \<lparr>order_id = 1, isBuy = True, price = 99, quantity = 50\<rparr>],
             sellOrders = [\<lparr>order_id = 3, isBuy = False, price = 101, quantity = 25\<rparr>],
             orderIdCounter = 4\<rparr>)"
  using main_example [OF std_sort_insertion_sort] std_sort_insertion_sort by blast

text \<open>
  C10. When the book does not cross after the insertion of the new order (a side is
  empty, or the front bid is priced strictly below the front ask), the call prints no
  trade, the book it leaves is the book after the insertion, and the side opposite to
  the new order is the list it was before the call.
\<close>

theorem placeOrder_no_cross_frame:
  "placeOrder srt s b p q = Inr (i, ts, s') \<Longrightarrow> nonCrossing (insertOrder srt s b p q) \<Longrightarrow>
     ts = [] \<and> s' = insertOrder srt s b p q \<and>
     (if b then sellOrders s' = sellOrders s else buyOrders s' = buyOrders s)"
proof -
  assume run: "placeOrder srt s b p q = Inr (i, ts, s')"
    and nc: "nonCrossing (insertOrder srt s b p q)"
  from nc have "matchOrders (insertOrder srt s b p q) = ([], insertOrder srt s b p q)"
    by (simp add: nonCrossing_matchStep_None matchOrders_None)
  with run have "ts = []" and s': "s' = insertOrder srt s b p q"
    by (simp_all add: placeOrder_Inr)
  moreover have "if b then sellOrders s' = sellOrders s else buyOrders s' = buyOrders s"
    unfolding s' by (simp add: insertOrder_def Let_def)
  ultimately show ?thesis by simp
qed

theorem placeOrder_no_cross_frame_witness:
  "placeOrder insertion_sort
     \<lparr>buyOrders = [\<lparr>order_id = 0, isBuy = True, price = 100, quantity = 25\<rparr>,
                   \<lparr>order_id = 1, isBuy = True, price = 99, quantity = 50\<rparr>],
      sellOrders = [], orderIdCounter = 3\<rparr> False 101 25 =
     Inr (3, [],
       \<lparr>buyOrders = [\<lparr>order_id = 0, isBuy = True, price = 100, quantity = 25\<rparr>,
                     \<lparr>order_id = 1, isBuy = True, price = 99, quantity = 50\<rparr>],
        sellOrders = [\<lparr>order_id = 3, isBuy = False, price = 101, quantity = 25\<rparr>],
        orderIdCounter = 4\<rparr>) \<and>
   nonCrossing (insertOrder insertion_sort
     \<lparr>buyOrders = [\<lparr>order_id = 0, isBuy = True, price = 100, quantity = 25\<rparr>,
                   \<lparr>order_id = 1, isBuy = True, price = 99, quantity = 50\<rparr>],
      sellOrders = [], orderIdCounter = 3\<rparr> False 101 25) \<and>
   buyOrders
     \<lparr>buyOrders = [\<lparr>order_id = 0, isBuy = True, price = 100, quantity = 25\<rparr>,
                   \<lparr>order_id = 1, isBuy = True, price = 99, quantity = 50\<rparr>],
      sellOrders = [\<lparr>order_id = 3, isBuy = False, price = 101, quantity = 25\<rparr>],
      orderIdCounter = 4\<rparr> =
     [\<lparr>order_id = 0, isBuy = True, price = 100, quantity = 25\<rparr>,
      \<lparr>order_id = 1, isBuy = True, price = 99, quantity = 50\<rparr>]"
  (is "placeOrder insertion_sort ?S False 101 25 = Inr (3, [], ?S') \<and> _ \<and> _")
proof -
  have run: "placeOrder insertion_sort ?S False 101 25 = Inr (3, [], ?S')"
    by (simp add: run_simps)
  have nc: "nonCrossing (insertOrder insertion_sort ?S False 101 25)"
    by (simp add: nonCrossing_def run_simps)
  from placeOrder_no_cross_frame [OF run nc, THEN conjunct2, THEN conjunct2]
  have "buyOrders ?S' = buyOrders ?S" by simp
  with run nc show ?thesis by simp
qed

end
